theory Spec2Isabelle
  imports Complex_Main "HOL-Library.Multiset"
begin

section \<open>Symphony: task routing and consensus, embedded from the Python sources\<close>

text \<open>
  The theory embeds the parts of the Symphony sources that decide the routing and
  consensus properties: executor selection (\<^verbatim>\<open>agents/agent.py\<close>), the User and UserRunner
  constructors (\<^verbatim>\<open>agents/user.py\<close>, \<^verbatim>\<open>user_register.py\<close>).
  Python exceptions are values of the type \<open>error\<close>; a function that can raise returns
  \<open>error + 'a\<close> with \<open>Inl\<close> for the exception. Python floats that carry match scores
  are modelled as real numbers (comparison and equality only are used on them), Python's
  unbounded integers as \<open>int\<close>.
\<close>

subsection \<open>Exceptions\<close>

datatype error =
    ValueError string
  | KeyError string
  | IndexError
  | AttributeError string
  | RuntimeError string
  | TypeError
  | OSError

subsection \<open>Python list primitives\<close>

text \<open>
  \<^verbatim>\<open>xs[:k]\<close>: a negative bound counts from the end of the list.
\<close>

definition slice_to :: "int \<Rightarrow> 'a list \<Rightarrow> 'a list" where
  "slice_to k xs = (if 0 \<le> k then take (nat k) xs else take (nat (int (length xs) + k)) xs)"

text \<open>
  \<^verbatim>\<open>sorted(xs, key=key, reverse=True)\<close>: CPython reverses the list, sorts it stably in
  ascending order of the key and reverses the result, so that elements with equal keys keep
  their original order.
\<close>

definition sorted_reverse :: "('a \<Rightarrow> 'k::linorder) \<Rightarrow> 'a list \<Rightarrow> 'a list" where
  "sorted_reverse key xs = rev (sort_key key (rev xs))"

subsection \<open>Executor selection (\<^verbatim>\<open>Agent._select_best_executors\<close>)\<close>

type_synonym candidate = "string \<times> real"

text \<open>
  The loop of \<^verbatim>\<open>_prioritize_self_execution\<close>: the index of the first entry whose id is the
  agent's own and whose score equals the best score; \<open>i\<close> is the loop counter of
  \<^verbatim>\<open>enumerate\<close>.
\<close>

fun find_self :: "string \<Rightarrow> real \<Rightarrow> nat \<Rightarrow> candidate list \<Rightarrow> nat option" where
  "find_self agent_id best_score i [] = None"
| "find_self agent_id best_score i ((candidate_id, score) # rest) =
     (if candidate_id = agent_id \<and> score = best_score then Some i
      else find_self agent_id best_score (Suc i) rest)"

text \<open>
  \<^verbatim>\<open>_prioritize_self_execution\<close> mutates the list in place: the entry found is swapped
  with the entry at index 0 (\<^verbatim>\<open>candidates[i] = candidates[0]; candidates[0] = (id, score)\<close>).
  The model returns the new list.
\<close>

definition prioritize_self_execution :: "string \<Rightarrow> candidate list \<Rightarrow> candidate list" where
  "prioritize_self_execution agent_id candidates =
     (case candidates of
        [] \<Rightarrow> []
      | c0 # _ \<Rightarrow>
          (case find_self agent_id (snd c0) 0 candidates of
             None \<Rightarrow> candidates
           | Some i \<Rightarrow> (candidates[i := c0])[0 := candidates ! i]))"

definition select_best_executors :: "string \<Rightarrow> candidate list \<Rightarrow> int \<Rightarrow> candidate list" where
  "select_best_executors agent_id candidates num_executors =
     slice_to num_executors (prioritize_self_execution agent_id (sorted_reverse snd candidates))"

text \<open>
  The order of the whole candidate list that the slice is taken from.
\<close>

definition ranked :: "string \<Rightarrow> candidate list \<Rightarrow> candidate list" where
  "ranked agent_id candidates = prioritize_self_execution agent_id (sorted_reverse snd candidates)"

definition descending :: "candidate list \<Rightarrow> bool" where
  "descending cs = sorted_wrt (\<lambda>a b. snd b \<le> snd a) cs"

subsection \<open>Python string primitives\<close>

text \<open>\<^verbatim>\<open>str(n)\<close> on an integer: its decimal digits, with a minus sign when negative.\<close>

definition digit_char :: "nat \<Rightarrow> char" where
  "digit_char d = ''0123456789'' ! d"

fun str_nat :: "nat \<Rightarrow> string" where
  "str_nat n = (if n < 10 then [digit_char n] else str_nat (n div 10) @ [digit_char (n mod 10)])"

declare str_nat.simps [simp del]

definition str_int :: "int \<Rightarrow> string" where
  "str_int i = (if i < 0 then CHR ''-'' # str_nat (nat (- i)) else str_nat (nat i))"

text \<open>\<^verbatim>\<open>sep.join(xs)\<close>.\<close>

fun join :: "string \<Rightarrow> string list \<Rightarrow> string" where
  "join sep [] = []"
| "join sep [x] = x"
| "join sep (x # y # ys) = x @ sep @ join sep (y # ys)"

subsection \<open>The task contract (\<^verbatim>\<open>protocol/task_contract.py\<close>)\<close>

text \<open>
  The fields of a task. A task travels as the dictionary of \<^verbatim>\<open>Task.to_dict\<close>, which has
  every one of these keys, and is turned back into an object by \<^verbatim>\<open>Task.from_dict\<close>; the
  same record holds the attributes of the object and the entries of the dictionary. The
  \<^verbatim>\<open>context\<close> dictionary and the \<^verbatim>\<open>api_mode\<close> flag, which no transition reads, are left out.
  The steps are a dictionary from the decimal index of a step to the list
  \<^verbatim>\<open>[instruction, requirement]\<close>; \<^verbatim>\<open>len(steps)\<close> is the number of its keys.
\<close>

type_synonym steps_dict = "string \<rightharpoonup> string list"

record Task =
  task_id :: string
  description :: string
  requirements :: "string list"
  subtask_id :: int
  steps :: steps_dict
  previous_results :: "string list"
  original_problem :: string
  final_result :: string
  user_id :: string

definition len_steps :: "steps_dict \<Rightarrow> int" where
  "len_steps s = int (card (dom s))"

text \<open>
  A value handed to the agent is a dictionary (what arrives from the network) or an object
  of class Task. The class defines \<^verbatim>\<open>__getitem__\<close> but no \<^verbatim>\<open>__setitem__\<close>.
\<close>

datatype py_task = Dict Task | Obj Task

definition to_dict :: "Task \<Rightarrow> py_task" where
  "to_dict t = Dict t"

text \<open>
  \<^verbatim>\<open>Task.from_dict\<close> on a dictionary with the keys of \<^verbatim>\<open>to_dict\<close> takes the branch of the
  high-level constructor; \<^verbatim>\<open>x or default\<close> replaces an empty value by the default, \<open>u\<close> is
  the identifier drawn by \<^verbatim>\<open>uuid.uuid4()\<close>.
\<close>

definition from_dict :: "string \<Rightarrow> Task \<Rightarrow> Task" where
  "from_dict u data =
     \<lparr>Task.task_id = (if Task.task_id data = '''' then u else Task.task_id data),
      description = description data,
      requirements = requirements data,
      subtask_id = subtask_id data,
      steps = steps data,
      previous_results = previous_results data,
      original_problem =
        (if original_problem data \<noteq> '''' then original_problem data else description data),
      Task.final_result = Task.final_result data,
      Task.user_id = (if Task.user_id data = '''' then ''symphony_user'' else Task.user_id data)\<rparr>"

text \<open>
  \<^verbatim>\<open>User._create_initial_task\<close>: the legacy constructor, with a fresh task identifier; the
  description is the problem and the requirements are the keys of the empty step dictionary.
\<close>

definition create_initial_task :: "string \<Rightarrow> string \<Rightarrow> string \<Rightarrow> Task" where
  "create_initial_task u uid user_input =
     \<lparr>Task.task_id = u, description = user_input, requirements = [],
      subtask_id = 0, steps = Map.empty, previous_results = [],
      original_problem = user_input, Task.final_result = '''',
      Task.user_id = (if uid = '''' then ''symphony_user'' else uid)\<rparr>"

subsection \<open>The task state machine (\<^verbatim>\<open>Agent.execute_task\<close>)\<close>

text \<open>
  The language model behind \<^verbatim>\<open>BaseModel\<close> is an external collaborator. \<open>generate\<close> maps a
  prompt to the generated text; \<open>extracted\<close> is what the parsing pipeline of
  \<^verbatim>\<open>extract_task\<close> recovers from the model's answer for a problem (\<open>None\<close> when every
  attempt fails and the method returns \<^verbatim>\<open>("", "", False)\<close>); \<open>subtasks\<close> is the list
  \<^verbatim>\<open>dag_dict.get("subtasks", [])\<close> that \<^verbatim>\<open>generate_task_dag\<close> recovers (\<open>None\<close> when it
  returns \<^verbatim>\<open>({}, False)\<close>).
\<close>

record base_model =
  generate :: "string \<Rightarrow> string"
  extracted :: "string \<Rightarrow> (string \<times> string) option"
  subtasks :: "string \<Rightarrow> string list option"

record agent =
  agent_id :: string
  system_prompt :: string
  agent_model :: "base_model option"

text \<open>
  The loop of \<^verbatim>\<open>generate_task_dag\<close> over \<^verbatim>\<open>enumerate(subtasks)\<close>:
  \<^verbatim>\<open>steps[str(index + 1)] = [s, requirement]\<close>.
\<close>

fun steps_loop :: "nat \<Rightarrow> string list \<Rightarrow> string \<Rightarrow> steps_dict \<Rightarrow> steps_dict" where
  "steps_loop index [] requirement st = st"
| "steps_loop index (s # rest) requirement st =
     steps_loop (Suc index) rest requirement (st(str_int (int index + 1) \<mapsto> [s, requirement]))"

definition extract_task :: "base_model \<Rightarrow> string \<Rightarrow> string \<times> string \<times> bool" where
  "extract_task m user_input =
     (case extracted m user_input of None \<Rightarrow> ('''', '''', False) | Some (bg, q) \<Rightarrow> (bg, q, True))"

definition generate_task_dag ::
  "base_model \<Rightarrow> string \<Rightarrow> string \<Rightarrow> string \<Rightarrow> string \<Rightarrow> steps_dict \<times> bool" where
  "generate_task_dag m task_background task_question user_input requirement =
     (case subtasks m user_input of
        None \<Rightarrow> (Map.empty, False)
      | Some subs \<Rightarrow> (steps_loop 0 subs requirement Map.empty, True))"

text \<open>\<^verbatim>\<open>Agent._build_task_description\<close>.\<close>

definition build_task_description :: "agent \<Rightarrow> string \<Rightarrow> string \<Rightarrow> string" where
  "build_task_description a instruction ctx =
     system_prompt a @ [CHR 0x0A]
     @ ''Background information include: '' @ [CHR 0x22] @ ctx @ [CHR 0x22] @ ''. ''
     @ ''Based on the background information, solve the sub-task: '' @ [CHR 0x22] @ instruction
     @ [CHR 0x22] @ ''. ''
     @ ''Provide the final answer formatted as $'' @ [CHR 0x5C] @ ''boxed{<Answer>}$. ''
     @ ''Do not provide additional explanations or code. Output: ''"

text \<open>
  \<^verbatim>\<open>Agent._decompose_task\<close> on a dictionary. An agent in test mode has no base model, and the
  call of \<^verbatim>\<open>self.base_model.extract_task\<close> raises AttributeError.
\<close>

definition decompose_task :: "agent \<Rightarrow> string \<Rightarrow> Task \<Rightarrow> error + Task" where
  "decompose_task a u task =
     (case agent_model a of
        None \<Rightarrow> Inl (AttributeError ''extract_task'')
      | Some m \<Rightarrow>
          (let user_input = original_problem task;
               (task_background, task_question, success) = extract_task m user_input;
               task1 =
                 (if success then
                    (let task' = task\<lparr>previous_results := previous_results task @ [task_background]\<rparr>;
                         (new_steps, dag_success) =
                            generate_task_dag m task_background task_question user_input ''math''
                     in if dag_success then task'\<lparr>steps := new_steps\<rparr> else task')
                  else task)
           in Inr (from_dict u (task1\<lparr>subtask_id := subtask_id task1 + 1\<rparr>))))"

text \<open>
  \<^verbatim>\<open>Agent._execute_subtask\<close> on a dictionary: \<^verbatim>\<open>task["steps"][current_subtask_id][0]\<close> raises
  KeyError for a missing step and IndexError for an empty step list.
\<close>

definition execute_subtask :: "agent \<Rightarrow> string \<Rightarrow> Task \<Rightarrow> error + Task" where
  "execute_subtask a u task =
     (let current_subtask_id = str_int (subtask_id task)
      in case steps task current_subtask_id of
           None \<Rightarrow> Inl (KeyError current_subtask_id)
         | Some [] \<Rightarrow> Inl IndexError
         | Some (instruction # _) \<Rightarrow>
             (let previous_context = join '' '' (previous_results task);
                  task_description = build_task_description a instruction previous_context
              in case agent_model a of
                   None \<Rightarrow> Inl (AttributeError ''generate'')
                 | Some m \<Rightarrow>
                     (let res = generate m task_description;
                          task1 = task\<lparr>previous_results :=
                                    previous_results task @ [instruction @ '' Answer: '' @ res]\<rparr>;
                          task2 = (if subtask_id task1 = len_steps (steps task1)
                                   then task1\<lparr>Task.final_result := res\<rparr> else task1)
                      in Inr (from_dict u (task2\<lparr>subtask_id := subtask_id task2 + 1\<rparr>)))))"

text \<open>
  \<^verbatim>\<open>Agent.execute_task\<close>. On an object of class Task the item assignment
  \<^verbatim>\<open>task["subtask_id"] += 1\<close> raises TypeError.
\<close>

definition execute_task :: "agent \<Rightarrow> string \<Rightarrow> py_task \<Rightarrow> error + Task" where
  "execute_task a u task =
     (case task of
        Obj t \<Rightarrow>
          (if subtask_id t = 0 then
             (case agent_model a of None \<Rightarrow> Inl (AttributeError ''extract_task'') | Some m \<Rightarrow> Inl TypeError)
           else
             (case steps t (str_int (subtask_id t)) of
                None \<Rightarrow> Inl (KeyError (str_int (subtask_id t)))
              | Some [] \<Rightarrow> Inl IndexError
              | Some (instruction # _) \<Rightarrow>
                  (case agent_model a of None \<Rightarrow> Inl (AttributeError ''generate'') | Some m \<Rightarrow> Inl TypeError)))
      | Dict t \<Rightarrow> (if subtask_id t = 0 then decompose_task a u t else execute_subtask a u t))"

text \<open>
  A task handed from node to node: each transition is run by one agent (with the
  identifier its \<^verbatim>\<open>from_dict\<close> draws), and the resulting object is sent on as its dictionary.
\<close>

fun run_task :: "(agent \<times> string) list \<Rightarrow> Task \<Rightarrow> error + Task" where
  "run_task [] task = Inr task"
| "run_task ((a, u) # rest) task =
     (case execute_task a u (to_dict task) of
        Inl err \<Rightarrow> Inl err
      | Inr t \<Rightarrow> run_task rest t)"

text \<open>
  The tasks that the system can hold: an initial task of a user, and whatever a transition
  returns on the dictionary of such a task.
\<close>

inductive reachable :: "Task \<Rightarrow> bool" where
  initial: "reachable (create_initial_task u uid user_input)"
| transition: "reachable task \<Longrightarrow> execute_task a u (to_dict task) = Inr t \<Longrightarrow> reachable t"

text \<open>
  A step dictionary with the keys \<open>"1"\<close>, ..., \<open>"N"\<close> and no others, and the invariant of
  the tasks that the system can hold.
\<close>

definition contiguous :: "steps_dict \<Rightarrow> bool" where
  "contiguous st \<longleftrightarrow> (\<exists>n. dom st = (\<lambda>j. str_int (int j + 1)) ` {0..<n})"

definition task_inv :: "Task \<Rightarrow> bool" where
  "task_inv t \<longleftrightarrow>
     contiguous (steps t)
     \<and> (Task.final_result t \<noteq> '''' \<longrightarrow> subtask_id t = len_steps (steps t) + 1)"

subsection \<open>The agent coordinator (\<^verbatim>\<open>AgentRunner._listen_tasks\<close>)\<close>

text \<open>
  What the coordinator does to the outside, in order. A local execution is bracketed by
  \<open>ExecBegin\<close> and \<open>ExecEnd\<close>; \<open>AssignCalled\<close> marks a call of \<^verbatim>\<open>Agent.assign_task\<close>,
  \<open>Broadcast\<close> the beacon it sends with the requirement of the current step, \<open>Delegated\<close> a
  call of \<^verbatim>\<open>delegate_task\<close>, \<open>Submitted\<close> a call of \<^verbatim>\<open>submit_result\<close>, \<open>Caught\<close> the entry of
  an exception into the \<^verbatim>\<open>except\<close> branch and \<open>Logged\<close> the error message that the branch
  prints.
\<close>

datatype event =
    ExecBegin py_task
  | ExecEnd
  | AssignCalled py_task
  | Broadcast string
  | Delegated string Task
  | Submitted string string "string list"
  | Caught error
  | Logged error

text \<open>
  \<^verbatim>\<open>Agent.assign_task\<close>. It reads \<^verbatim>\<open>task.subtask_id\<close> and \<^verbatim>\<open>task.steps\<close> as attributes, which
  a dictionary does not have (AttributeError); the requirement is the second entry of the
  current step. \<open>discovered\<close> is what \<^verbatim>\<open>broadcast_and_collect\<close> returns.
\<close>

definition assign_task :: "string \<Rightarrow> candidate list \<Rightarrow> py_task \<Rightarrow> error + event list" where
  "assign_task self_id discovered task =
     (case task of
        Dict d \<Rightarrow> Inl (AttributeError ''subtask_id'')
      | Obj t \<Rightarrow>
          (case steps t (str_int (subtask_id t)) of
             None \<Rightarrow> Inl (KeyError (str_int (subtask_id t)))
           | Some step \<Rightarrow>
               (case step of
                  instruction # req # _ \<Rightarrow>
                    Inr (Broadcast req #
                         map (\<lambda>(executor_id, score). Delegated executor_id t)
                             (select_best_executors self_id discovered 1))
                | _ \<Rightarrow> Inl IndexError)))"

text \<open>
  The gate of a node: \<open>first_task_received\<close> is the BUSY flag, \<open>beacon_enabled\<close> the event
  that lets the beacon loop answer. The flag \<^verbatim>\<open>self.running\<close> is written by the main thread
  (\<^verbatim>\<open>start\<close>, \<^verbatim>\<open>_wait_for_stop\<close>) and only read by the listener, so each read is an input
  of the iteration: \<open>running_at_test\<close> is the value read by the \<^verbatim>\<open>while\<close> test and
  \<open>running_in_handler\<close> the value read in the \<^verbatim>\<open>except\<close> branch. \<open>incoming\<close> is the outcome
  of \<^verbatim>\<open>receive_task\<close>: an exception, the empty sentinel of a timeout, or a task message.
\<close>

record gate =
  first_task_received :: bool
  beacon_enabled :: bool

record iteration =
  running_at_test :: bool
  running_in_handler :: bool
  incoming :: "error + (string \<times> py_task) option"
  fresh_id :: string
  discovered :: "candidate list"

definition initial_gate :: gate where
  "initial_gate = \<lparr>first_task_received = False, beacon_enabled = True\<rparr>"

definition idle :: "gate \<Rightarrow> bool" where
  "idle g \<longleftrightarrow> \<not> first_task_received g \<and> beacon_enabled g"

text \<open>The \<^verbatim>\<open>except\<close> branch of the loop body.\<close>

definition on_exception :: "iteration \<Rightarrow> error \<Rightarrow> gate \<Rightarrow> event list \<Rightarrow> gate \<times> event list" where
  "on_exception it err g evs =
     (if running_in_handler it
      then (g\<lparr>beacon_enabled := True, first_task_received := False\<rparr>,
            evs @ [Caught err, Logged err])
      else (g, evs @ [Caught err]))"

text \<open>One pass through the body of the \<^verbatim>\<open>while\<close> loop of \<^verbatim>\<open>_listen_tasks\<close>.\<close>

definition listen_tasks_body :: "agent \<Rightarrow> iteration \<Rightarrow> gate \<Rightarrow> gate \<times> event list" where
  "listen_tasks_body a it g =
     (case incoming it of
        Inl err \<Rightarrow> on_exception it err g []
      | Inr None \<Rightarrow> (g, [])
      | Inr (Some (sender_id, task)) \<Rightarrow>
          if \<not> first_task_received g then
            (let g1 = g\<lparr>first_task_received := True, beacon_enabled := False\<rparr>
             in case execute_task a (fresh_id it) task of
                  Inl err \<Rightarrow> on_exception it err g1 [ExecBegin task, ExecEnd]
                | Inr new_task \<Rightarrow>
                    if subtask_id new_task = len_steps (steps new_task) + 1 then
                      (g1\<lparr>beacon_enabled := True, first_task_received := False\<rparr>,
                       [ExecBegin task, ExecEnd,
                        Submitted (Task.user_id new_task) (Task.final_result new_task)
                          (previous_results new_task)])
                    else
                      (let g2 = g1\<lparr>beacon_enabled := True, first_task_received := False\<rparr>
                       in case assign_task (agent_id a) (discovered it) (Obj new_task) of
                            Inl err \<Rightarrow>
                              on_exception it err g2
                                [ExecBegin task, ExecEnd, AssignCalled (Obj new_task)]
                          | Inr evs \<Rightarrow>
                              (g2, [ExecBegin task, ExecEnd, AssignCalled (Obj new_task)] @ evs)))
          else
            (case assign_task (agent_id a) (discovered it) task of
               Inl err \<Rightarrow> on_exception it err g [AssignCalled task]
             | Inr evs \<Rightarrow> (g, AssignCalled task # evs)))"

text \<open>The loop over a finite sequence of iterations; it ends when the test reads \<open>False\<close>.\<close>

fun listen_tasks :: "agent \<Rightarrow> iteration list \<Rightarrow> gate \<Rightarrow> gate \<times> event list" where
  "listen_tasks a [] g = (g, [])"
| "listen_tasks a (it # rest) g =
     (if \<not> running_at_test it then (g, [])
      else (let (g1, evs) = listen_tasks_body a it g;
                (g2, evs') = listen_tasks a rest g1
            in (g2, evs @ evs')))"

text \<open>The number of local executions that are active after a sequence of events.\<close>

fun active :: "event list \<Rightarrow> int" where
  "active [] = 0"
| "active (ExecBegin t # evs) = active evs + 1"
| "active (ExecEnd # evs) = active evs - 1"
| "active (ev # evs) = active evs"

definition executes :: "event list \<Rightarrow> bool" where
  "executes evs \<longleftrightarrow> (\<exists>t. ExecBegin t \<in> set evs)"

text \<open>Events that neither begin nor end an execution; traces in which executions never overlap.\<close>

definition quiet :: "event list \<Rightarrow> bool" where
  "quiet evs \<longleftrightarrow> list_all (\<lambda>e. case e of ExecBegin t \<Rightarrow> False | ExecEnd \<Rightarrow> False | _ \<Rightarrow> True) evs"

definition bracketed :: "event list \<Rightarrow> bool" where
  "bracketed evs \<longleftrightarrow>
     active evs = 0 \<and> (\<forall>n. 0 \<le> active (take n evs) \<and> active (take n evs) \<le> 1)"

subsection \<open>Node configuration and the User constructor (\<^verbatim>\<open>agents/user.py\<close>)\<close>

text \<open>
  The configuration dictionary: a key that is absent is \<open>None\<close>. A neighbour entry is a
  sequence of YAML scalars; \<^verbatim>\<open>int(port)\<close> is the identity on an integer and parses a
  string. The parser of Python's \<^verbatim>\<open>int\<close> on strings is a parameter (\<open>int_of\<close>, \<open>None\<close>
  where it raises ValueError), as is whether the server socket of the NetworkAdapter can be
  bound (\<open>bind_ok\<close>) and the configuration that \<^verbatim>\<open>load_config_from_file\<close> returns.
\<close>

datatype scalar = SStr string | SInt int

record config =
  node_id :: "string option"
  network :: "(string \<times> int) option"
  neighbours :: "scalar list list option"

record env =
  bind_ok :: bool
  int_of :: "string \<Rightarrow> int option"
  load_config_from_file :: "string \<Rightarrow> config"

text \<open>What a constructor has created so far: the network state and the client state.\<close>

datatype effect = NetworkAdapterCreated string | ISEPClientCreated string

record user =
  user_id :: string
  consensus_count :: int
  neighbors :: "scalar \<rightharpoonup> (scalar \<times> int)"

definition py_int :: "env \<Rightarrow> scalar \<Rightarrow> int option" where
  "py_int e v = (case v of SInt n \<Rightarrow> Some n | SStr s \<Rightarrow> int_of e s)"

text \<open>
  \<^verbatim>\<open>User._initialize_neighbors\<close>: the unpacking of an entry that has not exactly three
  components and a port that is no integer both end in ValueError (the message carries the
  entry's \<^verbatim>\<open>repr\<close>, which is left out here).
\<close>

fun initialize_neighbors ::
  "env \<Rightarrow> scalar list list \<Rightarrow> (scalar \<rightharpoonup> (scalar \<times> int)) \<Rightarrow> error + (scalar \<rightharpoonup> (scalar \<times> int))" where
  "initialize_neighbors e [] nb = Inr nb"
| "initialize_neighbors e (neighbor # rest) nb =
     (case neighbor of
        [nid, address, port] \<Rightarrow>
          (case py_int e port of
             None \<Rightarrow> Inl (ValueError ''Invalid neighbor configuration'')
           | Some p \<Rightarrow> initialize_neighbors e rest (nb(nid \<mapsto> (address, p))))
      | _ \<Rightarrow> Inl (ValueError ''Invalid neighbor configuration''))"

text \<open>
  \<^verbatim>\<open>User.__init__\<close>. The result is the list of effects performed and either the exception
  raised or the user object. \<^verbatim>\<open>NetworkAdapter(self.user_id, config)\<close> reads
  \<^verbatim>\<open>config["network"]\<close> and starts the server.
\<close>

definition User_init :: "env \<Rightarrow> config \<Rightarrow> int \<Rightarrow> effect list \<times> (error + user)" where
  "User_init e cfg cc =
     (if cc \<le> 0 then ([], Inl (ValueError ''Consensus count must be positive''))
      else case node_id cfg of
        None \<Rightarrow> ([], Inl (KeyError ''node_id''))
      | Some uid \<Rightarrow>
          (case network cfg of
             None \<Rightarrow> ([], Inl (KeyError ''network''))
           | Some hp \<Rightarrow>
               if \<not> bind_ok e then ([], Inl OSError)
               else
                 (case neighbours cfg of
                    None \<Rightarrow> ([NetworkAdapterCreated uid, ISEPClientCreated uid], Inl (KeyError ''neighbours''))
                  | Some ns \<Rightarrow>
                      (case initialize_neighbors e ns Map.empty of
                         Inl err \<Rightarrow> ([NetworkAdapterCreated uid, ISEPClientCreated uid], Inl err)
                       | Inr nb \<Rightarrow>
                           ([NetworkAdapterCreated uid, ISEPClientCreated uid],
                            Inr \<lparr>user_id = uid, consensus_count = cc, neighbors = nb\<rparr>)))))"

subsection \<open>The consensus collector (\<^verbatim>\<open>user_register.py\<close>)\<close>

record user_runner =
  user :: user
  cot_num :: int
  running :: bool
  answers :: "string list"
  current_answers :: "string list"
  full_answers :: "string list list"
  result_event :: bool
  final_result :: string

text \<open>\<^verbatim>\<open>UserRunner.__init__\<close>.\<close>

definition UserRunner_init :: "env \<Rightarrow> string \<Rightarrow> int \<Rightarrow> effect list \<times> (error + user_runner)" where
  "UserRunner_init e config_path n =
     (if n < 1 then ([], Inl (ValueError ''Chain of Thought number must be at least 1''))
      else case User_init e (load_config_from_file e config_path) n of
        (effs, Inl err) \<Rightarrow> (effs, Inl err)
      | (effs, Inr u) \<Rightarrow>
          (effs, Inr \<lparr>user = u, cot_num = n, running = False, answers = [],
                      current_answers = [], full_answers = [], result_event = False,
                      final_result = ''''\<rparr>))"

text \<open>
  \<^verbatim>\<open>collections.Counter\<close> is a dictionary that keeps its keys in the order of their first
  insertion; it is modelled as an association list with distinct keys in that order.
  \<^verbatim>\<open>Counter(iterable)\<close> runs \<^verbatim>\<open>self[elem] = self.get(elem, 0) + 1\<close> over the elements.
\<close>

fun counter_add :: "'a \<Rightarrow> ('a \<times> nat) list \<Rightarrow> ('a \<times> nat) list" where
  "counter_add x [] = [(x, 1)]"
| "counter_add x ((y, n) # c) = (if x = y then (y, n + 1) # c else (y, n) # counter_add x c)"

definition Counter :: "'a list \<Rightarrow> ('a \<times> nat) list" where
  "Counter xs = foldl (\<lambda>c x. counter_add x c) [] xs"

text \<open>
  \<^verbatim>\<open>most_common(1)\<close> is \<^verbatim>\<open>heapq.nlargest(1, self.items(), key=itemgetter(1))\<close>, which for
  \<open>n = 1\<close> is \<^verbatim>\<open>max(it, key=key)\<close>: the first item, in iteration order, among those of
  the greatest count (a later item replaces the best one only when its count is strictly
  greater).
\<close>

fun max_by :: "('a \<Rightarrow> nat) \<Rightarrow> 'a \<Rightarrow> 'a list \<Rightarrow> 'a" where
  "max_by key best [] = best"
| "max_by key best (x # xs) = max_by key (if key best < key x then x else best) xs"

definition most_common_1 :: "('a \<times> nat) list \<Rightarrow> ('a \<times> nat) list" where
  "most_common_1 c = (case c of [] \<Rightarrow> [] | x # xs \<Rightarrow> [max_by snd x xs])"

text \<open>\<^verbatim>\<open>UserRunner._vote_results\<close>; \<^verbatim>\<open>most_common(1)[0]\<close> raises IndexError on an empty list.\<close>

definition vote_results :: "string list \<Rightarrow> error + string" where
  "vote_results cur =
     (if cur = [] then Inr ''[NO_ANSWERS]''
      else case most_common_1 (Counter cur) of
        [] \<Rightarrow> Inl IndexError
      | most # _ \<Rightarrow> Inr (fst most))"

text \<open>The payload of a \<^verbatim>\<open>task_result\<close> message (\<^verbatim>\<open>TaskResult.to_dict\<close>).\<close>

record task_result =
  target_id :: string
  executer_id :: string
  result :: string
  tr_previous_results :: "string list"

text \<open>
  One iteration of \<^verbatim>\<open>UserRunner._listen_results\<close> that receives a \<^verbatim>\<open>task_result\<close> message.
  An exception inside the iteration is caught and logged by the loop; the state keeps what
  was written before it.
\<close>

definition on_task_result :: "task_result \<Rightarrow> user_runner \<Rightarrow> user_runner" where
  "on_task_result res r =
     (let r1 = r\<lparr>current_answers := current_answers r @ [result res]\<rparr>;
          r2 = r1\<lparr>full_answers := full_answers r1 @ [tr_previous_results res]\<rparr>
      in if cot_num r2 \<le> int (length (current_answers r2)) then
           (case vote_results (current_answers r2) of
              Inl err \<Rightarrow> r2
            | Inr w \<Rightarrow> r2\<lparr>final_result := w, answers := answers r2 @ [w], result_event := True\<rparr>)
         else r2)"

text \<open>The listener fed with a sequence of result messages.\<close>

fun listen_results :: "task_result list \<Rightarrow> user_runner \<Rightarrow> user_runner" where
  "listen_results [] r = r"
| "listen_results (res # rest) r = listen_results rest (on_task_result res r)"

text \<open>
  The state reset that \<^verbatim>\<open>process_task_batch\<close> performs before each problem, followed by
  the clearing of the event in \<^verbatim>\<open>process_task\<close>.
\<close>

definition reset_for_task :: "user_runner \<Rightarrow> user_runner" where
  "reset_for_task r = r\<lparr>current_answers := [], full_answers := [], final_result := '''', result_event := False\<rparr>"

subsection \<open>Batch processing (\<^verbatim>\<open>UserRunner.process_task_batch\<close>)\<close>

text \<open>
  A problem of the batch and the record written for it. What \<^verbatim>\<open>self.process_task\<close> does
  on a problem depends on the network: it returns the voted answer (or the timeout
  sentinel) with the detailed answers, or it raises (\<^verbatim>\<open>initiate_task\<close> raises ValueError on
  an empty problem and RuntimeError when no executor answered the beacon). The outcome is
  given with each problem.
\<close>

record task_item =
  unique_id :: string
  problem :: string

record result_item =
  ri_unique_id :: string
  final_answer :: string
  ri_full_answers :: "string list list"

datatype outcome = Returned string "string list list" | Raised string

text \<open>
  The loop state: the buffer, the counter, the argument of every call of
  \<^verbatim>\<open>_save_batch_results\<close> so far, and the lines appended to the output file.
\<close>

record batch =
  tasks_to_save :: "result_item list"
  processed_count :: int
  save_calls :: "result_item list list"
  output_log :: "result_item list"

text \<open>The \<^verbatim>\<open>except\<close> branch of the loop body.\<close>

definition on_task_error :: "task_item \<Rightarrow> string \<Rightarrow> batch \<Rightarrow> batch" where
  "on_task_error task_item msg b =
     b\<lparr>tasks_to_save := tasks_to_save b @
          [\<lparr>ri_unique_id = unique_id task_item, final_answer = ''[ERROR] '' @ msg,
            ri_full_answers = []\<rparr>],
       processed_count := processed_count b + 1\<rparr>"

text \<open>
  The \<^verbatim>\<open>for\<close> loop. \<open>save_fails n\<close> tells whether the call number \<open>n\<close> of
  \<^verbatim>\<open>_save_batch_results\<close> raises IOError (an alias of OSError); inside the \<^verbatim>\<open>try\<close> block
  that exception is handled by the \<^verbatim>\<open>except\<close> branch like one of \<^verbatim>\<open>process_task\<close>.
\<close>

fun batch_loop :: "(nat \<Rightarrow> bool) \<Rightarrow> int \<Rightarrow> (task_item \<times> outcome) list \<Rightarrow> batch \<Rightarrow> batch" where
  "batch_loop save_fails max_process [] b = b"
| "batch_loop save_fails max_process ((task_item, oc) # rest) b =
     (if max_process \<le> processed_count b then b
      else case oc of
        Raised msg \<Rightarrow> batch_loop save_fails max_process rest (on_task_error task_item msg b)
      | Returned answer full \<Rightarrow>
          (let b1 = b\<lparr>tasks_to_save := tasks_to_save b @
                        [\<lparr>ri_unique_id = unique_id task_item, final_answer = answer,
                          ri_full_answers = full\<rparr>],
                      processed_count := processed_count b + 1\<rparr>
           in if processed_count b1 mod 5 = 0 then
                (if save_fails (length (save_calls b1)) then
                   batch_loop save_fails max_process rest
                     (on_task_error task_item ''IOError''
                        (b1\<lparr>save_calls := save_calls b1 @ [tasks_to_save b1]\<rparr>))
                 else
                   batch_loop save_fails max_process rest
                     (b1\<lparr>save_calls := save_calls b1 @ [tasks_to_save b1],
                         output_log := output_log b1 @ tasks_to_save b1,
                         tasks_to_save := []\<rparr>))
              else batch_loop save_fails max_process rest b1))"

text \<open>
  \<^verbatim>\<open>process_task_batch\<close>: \<^verbatim>\<open>max_tasks or len(tasks)\<close> takes the length for \<^verbatim>\<open>None\<close> and
  for 0. The final save is outside the \<^verbatim>\<open>try\<close> block: its exception leaves the method.
\<close>

definition process_task_batch ::
  "(nat \<Rightarrow> bool) \<Rightarrow> (task_item \<times> outcome) list \<Rightarrow> int option \<Rightarrow> batch \<times> error option" where
  "process_task_batch save_fails tasks max_tasks =
     (let max_process = (case max_tasks of
                           None \<Rightarrow> int (length tasks)
                         | Some m \<Rightarrow> if m = 0 then int (length tasks) else m);
          b = batch_loop save_fails max_process tasks
                \<lparr>tasks_to_save = [], processed_count = 0, save_calls = [], output_log = []\<rparr>
      in if tasks_to_save b \<noteq> [] then
           (if save_fails (length (save_calls b)) then
              (b\<lparr>save_calls := save_calls b @ [tasks_to_save b]\<rparr>, Some OSError)
            else
              (b\<lparr>save_calls := save_calls b @ [tasks_to_save b],
                 output_log := output_log b @ tasks_to_save b\<rparr>, None))
         else (b, None))"

text \<open>A batch of \<open>n\<close> problems that all return, and one in which the problem number \<open>k\<close> raises.\<close>

definition returning :: "nat \<Rightarrow> (task_item \<times> outcome) list" where
  "returning n = map (\<lambda>i. (\<lparr>unique_id = ''t'', problem = ''p''\<rparr>, Returned ''ok'' [])) [0..<n]"

definition raising_at :: "nat \<Rightarrow> nat \<Rightarrow> (task_item \<times> outcome) list" where
  "raising_at k n =
     map (\<lambda>i. (\<lparr>unique_id = ''t'', problem = (if i = k then '''' else ''p'')\<rparr>,
                if i = k then Raised ''User input cannot be empty'' else Returned ''ok'' []))
         [0..<n]"

text \<open>Every call of \<^verbatim>\<open>process_task\<close> in the batch returns.\<close>

definition all_returned :: "(task_item \<times> outcome) list \<Rightarrow> bool" where
  "all_returned tasks = list_all (\<lambda>(t, oc). case oc of Returned a f \<Rightarrow> True | Raised m \<Rightarrow> False) tasks"

subsection \<open>Protocol messages (\<^verbatim>\<open>protocol/beacon.py\<close>, \<^verbatim>\<open>protocol/response.py\<close>)\<close>

text \<open>
  Python's \<^verbatim>\<open>round(x, 3)\<close> on a score: rounding of \<open>1000 x\<close> to the nearest integer, a
  tie going to the even one. Scores are modelled as real numbers.
\<close>

definition round_half_even :: "real \<Rightarrow> int" where
  "round_half_even y =
     (let f = \<lfloor>y\<rfloor>; d = y - of_int f
      in if d < 1 / 2 then f else if 1 / 2 < d then f + 1 else if even f then f else f + 1)"

definition round3 :: "real \<Rightarrow> real" where
  "round3 x = of_int (round_half_even (x * 1000)) / 1000"

text \<open>
  A beacon. \<^verbatim>\<open>uuid.uuid4()\<close> and \<^verbatim>\<open>time.time()\<close> are effects: the constructor takes the
  fresh identifier \<open>u\<close> and the clock reading \<open>now\<close>. \<^verbatim>\<open>task_id or self.beacon_id\<close> falls
  back to the beacon id for \<^verbatim>\<open>None\<close> and for the empty string.
\<close>

record Beacon =
  beacon_id :: string
  sender :: string
  task_id :: string
  requirement :: string
  ttl :: int
  timestamp :: int

definition Beacon_init :: "string \<Rightarrow> int \<Rightarrow> string \<Rightarrow> string \<Rightarrow> string option \<Rightarrow> int \<Rightarrow> Beacon" where
  "Beacon_init u now sender_arg requirement_arg task_id_arg ttl_arg =
     \<lparr>beacon_id = u, sender = sender_arg,
      task_id = (case task_id_arg of None \<Rightarrow> u | Some t \<Rightarrow> if t = '''' then u else t),
      requirement = requirement_arg, ttl = ttl_arg, timestamp = now\<rparr>"

text \<open>
  The dictionary of a beacon on the wire: each key is present with its value or absent.
\<close>

record beacon_dict =
  d_beacon_id :: "string option"
  d_sender :: "string option"
  d_task_id :: "string option"
  d_requirement :: "string option"
  d_ttl :: "int option"
  d_timestamp :: "int option"

definition Beacon_to_dict :: "Beacon \<Rightarrow> beacon_dict" where
  "Beacon_to_dict b =
     \<lparr>d_beacon_id = Some (beacon_id b), d_sender = Some (sender b),
      d_task_id = Some (Beacon.task_id b), d_requirement = Some (requirement b),
      d_ttl = Some (ttl b), d_timestamp = Some (timestamp b)\<rparr>"

text \<open>\<^verbatim>\<open>data.get(key, default)\<close>.\<close>

definition get_default :: "'a option \<Rightarrow> 'a \<Rightarrow> 'a" where
  "get_default v d = (case v of None \<Rightarrow> d | Some x \<Rightarrow> x)"

text \<open>
  \<^verbatim>\<open>Beacon.from_dict\<close> calls the constructor (identifier \<open>u1\<close>, clock \<open>t1\<close>) and then
  overwrites the beacon id and the timestamp; the defaults of these two \<^verbatim>\<open>get\<close> calls
  are evaluated whether or not they are used (identifier \<open>u2\<close>, clock \<open>t2\<close>).
\<close>

definition Beacon_from_dict :: "string \<Rightarrow> string \<Rightarrow> int \<Rightarrow> int \<Rightarrow> beacon_dict \<Rightarrow> Beacon" where
  "Beacon_from_dict u1 u2 t1 t2 d =
     (let beacon = Beacon_init u1 t1 (get_default (d_sender d) ''unknown'')
                     (get_default (d_requirement d) '''') (d_task_id d) (get_default (d_ttl d) 2)
      in beacon\<lparr>beacon_id := get_default (d_beacon_id d) u2,
                timestamp := get_default (d_timestamp d) t2\<rparr>)"

text \<open>A beacon response; the constructor clamps and rounds the score and the cost.\<close>

record BeaconResponse =
  response_id :: string
  responder_id :: string
  task_id :: string
  match_score :: real
  estimate_cost :: real
  timestamp :: int

definition BeaconResponse_init ::
  "string \<Rightarrow> int \<Rightarrow> string \<Rightarrow> string \<Rightarrow> real \<Rightarrow> real \<Rightarrow> BeaconResponse" where
  "BeaconResponse_init u now responder_arg task_id_arg score cost =
     \<lparr>response_id = u, responder_id = responder_arg, task_id = task_id_arg,
      match_score = round3 (max 0 (min 1 score)),
      estimate_cost = round3 (max 0 cost), timestamp = now\<rparr>"

record response_dict =
  d_response_id :: "string option"
  d_responder_id :: "string option"
  dr_task_id :: "string option"
  d_match_score :: "real option"
  d_estimate_cost :: "real option"
  dr_timestamp :: "int option"

definition BeaconResponse_to_dict :: "BeaconResponse \<Rightarrow> response_dict" where
  "BeaconResponse_to_dict r =
     \<lparr>d_response_id = Some (response_id r), d_responder_id = Some (responder_id r),
      dr_task_id = Some (BeaconResponse.task_id r), d_match_score = Some (match_score r),
      d_estimate_cost = Some (estimate_cost r),
      dr_timestamp = Some (BeaconResponse.timestamp r)\<rparr>"

definition BeaconResponse_from_dict ::
  "string \<Rightarrow> string \<Rightarrow> int \<Rightarrow> int \<Rightarrow> response_dict \<Rightarrow> BeaconResponse" where
  "BeaconResponse_from_dict u1 u2 t1 t2 d =
     (let resp = BeaconResponse_init u1 t1 (get_default (d_responder_id d) ''unknown'')
                   (get_default (dr_task_id d) '''') (get_default (d_match_score d) 1)
                   (get_default (d_estimate_cost d) 1)
      in resp\<lparr>response_id := get_default (d_response_id d) u2,
              BeaconResponse.timestamp := get_default (dr_timestamp d) t2\<rparr>)"

subsection \<open>Sequence matching (\<^verbatim>\<open>difflib.SequenceMatcher\<close>)\<close>

text \<open>
  \<^verbatim>\<open>CapabilityManager.match\<close> scores a tag against a requirement with
  \<^verbatim>\<open>difflib.SequenceMatcher(None, tag, requirement).ratio()\<close> of Python's standard library.
  The model follows the library's algorithm for \<^verbatim>\<open>isjunk=None\<close> and \<^verbatim>\<open>autojunk=True\<close>.
  \<open>b2j\<close> maps an element to the increasing list of its positions in \<open>b\<close>; when \<open>b\<close> has
  200 elements or more, an element that occurs more than \<open>len(b) // 100 + 1\<close> times is
  popular and has no entry. Without a junk predicate no element is junk, so the two loops
  of \<^verbatim>\<open>find_longest_match\<close> that absorb junk never run. A table \<open>j2len\<close> is a function
  that is 0 where the dictionary has no key (its values are at least 1). Every index read
  from \<open>a\<close> or \<open>b\<close> is below \<open>ahi \<le> len(a)\<close> or \<open>bhi \<le> len(b)\<close>.
\<close>

definition popular :: "string \<Rightarrow> char \<Rightarrow> bool" where
  "popular b c \<longleftrightarrow> 200 \<le> length b \<and> length b div 100 + 1 < count_list b c"

definition b2j :: "string \<Rightarrow> char \<Rightarrow> nat list" where
  "b2j b c = (if popular b c then [] else filter (\<lambda>j. b ! j = c) [0..<length b])"

text \<open>A block \<open>(i, j, k)\<close>: \<open>a[i:i+k] == b[j:j+k]\<close>; the best block found so far.\<close>

type_synonym best = "nat \<times> nat \<times> nat"

text \<open>
  The inner loop of \<^verbatim>\<open>find_longest_match\<close> over the positions \<open>j\<close> of \<open>a[i]\<close> in \<open>b\<close>
  (\<^verbatim>\<open>continue\<close> below \<open>blo\<close>, \<^verbatim>\<open>break\<close> from \<open>bhi\<close> on), and the outer loop over
  \<open>i\<close> in \<^verbatim>\<open>range(alo, ahi)\<close>.
\<close>

fun inner_loop ::
  "nat list \<Rightarrow> nat \<Rightarrow> nat \<Rightarrow> nat \<Rightarrow> (nat \<Rightarrow> nat) \<Rightarrow> (nat \<Rightarrow> nat) \<times> best \<Rightarrow> (nat \<Rightarrow> nat) \<times> best" where
  "inner_loop [] i blo bhi j2len st = st"
| "inner_loop (j # js) i blo bhi j2len (newj2len, besti, bestj, bestsize) =
     (if j < blo then inner_loop js i blo bhi j2len (newj2len, besti, bestj, bestsize)
      else if bhi \<le> j then (newj2len, besti, bestj, bestsize)
      else (let k = (if j = 0 then 0 else j2len (j - 1)) + 1
            in if bestsize < k
               then inner_loop js i blo bhi j2len (newj2len(j := k), i + 1 - k, j + 1 - k, k)
               else inner_loop js i blo bhi j2len (newj2len(j := k), besti, bestj, bestsize)))"

fun outer_loop ::
  "string \<Rightarrow> string \<Rightarrow> nat list \<Rightarrow> nat \<Rightarrow> nat \<Rightarrow> (nat \<Rightarrow> nat) \<times> best \<Rightarrow> best" where
  "outer_loop a b [] blo bhi (j2len, bst) = bst"
| "outer_loop a b (i # rest) blo bhi (j2len, bst) =
     outer_loop a b rest blo bhi (inner_loop (b2j b (a ! i)) i blo bhi j2len (\<lambda>j. 0, bst))"

text \<open>The two loops that extend the best block by equal elements on each side.\<close>

function extend_back :: "string \<Rightarrow> string \<Rightarrow> nat \<Rightarrow> nat \<Rightarrow> best \<Rightarrow> best" where
  "extend_back a b alo blo (besti, bestj, bestsize) =
     (if alo < besti \<and> blo < bestj \<and> a ! (besti - 1) = b ! (bestj - 1)
      then extend_back a b alo blo (besti - 1, bestj - 1, bestsize + 1)
      else (besti, bestj, bestsize))"
  by pat_completeness auto
termination
  by (relation "measure (\<lambda>(a, b, alo, blo, besti, bestj, bestsize). besti)") auto

function extend_forward :: "string \<Rightarrow> string \<Rightarrow> nat \<Rightarrow> nat \<Rightarrow> best \<Rightarrow> best" where
  "extend_forward a b ahi bhi (besti, bestj, bestsize) =
     (if besti + bestsize < ahi \<and> bestj + bestsize < bhi \<and> a ! (besti + bestsize) = b ! (bestj + bestsize)
      then extend_forward a b ahi bhi (besti, bestj, bestsize + 1)
      else (besti, bestj, bestsize))"
  by pat_completeness auto
termination
  by (relation "measure (\<lambda>(a, b, ahi, bhi, besti, bestj, bestsize). ahi - (besti + bestsize))") auto

definition find_longest_match :: "string \<Rightarrow> string \<Rightarrow> nat \<Rightarrow> nat \<Rightarrow> nat \<Rightarrow> nat \<Rightarrow> best" where
  "find_longest_match a b alo ahi blo bhi =
     extend_forward a b ahi bhi
       (extend_back a b alo blo
          (outer_loop a b [alo..<ahi] blo bhi (\<lambda>j. 0, alo, blo, 0)))"

declare extend_back.simps [simp del] extend_forward.simps [simp del]


text \<open>
  The bounds of the block that \<open>find_longest_match\<close> returns. The table \<open>j2len\<close> of a row
  holds, for each end position \<open>j\<close>, the length of the common run that ends there.
\<close>

definition table_ok :: "nat \<Rightarrow> nat \<Rightarrow> nat \<Rightarrow> (nat \<Rightarrow> nat) \<Rightarrow> bool" where
  "table_ok rows blo bhi t \<longleftrightarrow> (\<forall>j. t j \<le> rows \<and> t j \<le> j + 1 - blo)"

definition best_ok :: "nat \<Rightarrow> nat \<Rightarrow> nat \<Rightarrow> nat \<Rightarrow> best \<Rightarrow> bool" where
  "best_ok alo hi blo bhi bst \<longleftrightarrow>
     (case bst of (besti, bestj, bestsize) \<Rightarrow>
        alo \<le> besti \<and> blo \<le> bestj
        \<and> (if bestsize = 0 then besti = alo \<and> bestj = blo
            else besti + bestsize \<le> hi \<and> bestj + bestsize \<le> bhi))"

lemma inner_loop_ok:
  assumes "table_ok (i - alo) blo bhi j2len" "alo \<le> i"
    and "table_ok (i + 1 - alo) blo bhi (fst st)" "best_ok alo (i + 1) blo bhi (snd st)"
  shows "table_ok (i + 1 - alo) blo bhi (fst (inner_loop js i blo bhi j2len st))
       \<and> best_ok alo (i + 1) blo bhi (snd (inner_loop js i blo bhi j2len st))"
  using assms(3,4)
proof (induction js arbitrary: st)
  case Nil
  then show ?case by simp
next
  case (Cons j js)
  obtain new besti bestj bestsize where st: "st = (new, besti, bestj, bestsize)"
    by (cases st) auto
  show ?case
  proof (cases "j < blo")
    case True
    then show ?thesis using Cons.IH[OF Cons.prems] by (simp add: st)
  next
    case nb: False
    show ?thesis
    proof (cases "bhi \<le> j")
      case True
      then show ?thesis using nb Cons.prems by (simp add: st)
    next
      case False
      define k where "k = (if j = 0 then 0 else j2len (j - 1)) + 1"
      have k1: "k \<le> i + 1 - alo"
        using assms(1,2) by (auto simp: k_def table_ok_def) (metis Suc_diff_le Suc_le_mono)
      have k2: "k \<le> j + 1 - blo"
      proof (cases "j = 0")
        case True
        then show ?thesis using nb by (simp add: k_def)
      next
        case j: False
        have "j2len (j - 1) \<le> (j - 1) + 1 - blo" using assms(1) by (simp add: table_ok_def)
        then show ?thesis using j nb by (simp add: k_def)
      qed
      have kpos: "0 < k" by (simp add: k_def)
      have new_ok: "table_ok (i + 1 - alo) blo bhi (new(j := k))"
        using Cons.prems(1) k1 k2 unfolding table_ok_def st fst_conv by (simp add: fun_upd_def)
      have upd_ok: "best_ok alo (i + 1) blo bhi (i + 1 - k, j + 1 - k, k)"
        using k1 k2 kpos assms(2) nb False by (auto simp: best_ok_def)
      show ?thesis
      proof (cases "bestsize < k")
        case True
        have step: "inner_loop (j # js) i blo bhi j2len st
            = inner_loop js i blo bhi j2len (new(j := k), i + 1 - k, j + 1 - k, k)"
          using nb False True by (simp add: st k_def Let_def)
        have p1: "table_ok (i + 1 - alo) blo bhi (fst (new(j := k), i + 1 - k, j + 1 - k, k))"
          unfolding fst_conv by (rule new_ok)
        have p2: "best_ok alo (i + 1) blo bhi (snd (new(j := k), i + 1 - k, j + 1 - k, k))"
          unfolding snd_conv by (rule upd_ok)
        from Cons.IH[OF p1 p2] show ?thesis unfolding step .
      next
        case nk: False
        have step: "inner_loop (j # js) i blo bhi j2len st
            = inner_loop js i blo bhi j2len (new(j := k), besti, bestj, bestsize)"
          using nb False nk by (simp add: st k_def Let_def)
        have p1: "table_ok (i + 1 - alo) blo bhi (fst (new(j := k), besti, bestj, bestsize))"
          unfolding fst_conv by (rule new_ok)
        have p2: "best_ok alo (i + 1) blo bhi (snd (new(j := k), besti, bestj, bestsize))"
          using Cons.prems(2) unfolding snd_conv st .
        from Cons.IH[OF p1 p2] show ?thesis unfolding step .
      qed
    qed
  qed
qed

lemma best_ok_mono: "best_ok alo hi blo bhi bst \<Longrightarrow> hi \<le> hi' \<Longrightarrow> best_ok alo hi' blo bhi bst"
  by (auto simp: best_ok_def)

lemma outer_loop_ok:
  assumes "table_ok (i - alo) blo bhi (fst st)" "alo \<le> i" "i \<le> ahi" "best_ok alo i blo bhi (snd st)"
  shows "best_ok alo ahi blo bhi (outer_loop a b [i..<ahi] blo bhi st)"
  using assms
proof (induction "ahi - i" arbitrary: i st)
  case 0
  obtain t bst where st: "st = (t, bst)" by (cases st)
  from 0 have "i = ahi" by simp
  then show ?case using 0(5) by (simp add: st)
next
  case (Suc n)
  obtain t bst where st: "st = (t, bst)" by (cases st)
  from Suc(2) have lt: "i < ahi" by simp
  then have rows: "[i..<ahi] = i # [Suc i..<ahi]" by (simp add: upt_rec)
  define st' where "st' = inner_loop (b2j b (a ! i)) i blo bhi t (\<lambda>j. 0, bst)"
  have "table_ok (i + 1 - alo) blo bhi (fst (\<lambda>j::nat. 0::nat, bst))" by (simp add: table_ok_def)
  moreover have "best_ok alo (i + 1) blo bhi (snd (\<lambda>j::nat. 0::nat, bst))"
    using Suc(6) by (simp add: st best_ok_mono)
  moreover have "table_ok (i - alo) blo bhi t" using Suc(3) by (simp add: st)
  ultimately have ok: "table_ok (i + 1 - alo) blo bhi (fst st')" "best_ok alo (i + 1) blo bhi (snd st')"
    using inner_loop_ok[of i alo blo bhi t "(\<lambda>j. 0, bst)" "b2j b (a ! i)"] Suc(4)
    by (simp_all add: st'_def)
  have "n = ahi - Suc i" using Suc(2) by simp
  moreover have "table_ok (Suc i - alo) blo bhi (fst st')" using ok(1) by simp
  moreover have "best_ok alo (Suc i) blo bhi (snd st')" using ok(2) by simp
  ultimately have "best_ok alo ahi blo bhi (outer_loop a b [Suc i..<ahi] blo bhi st')"
    using Suc(1)[of "Suc i" st'] Suc(4) lt by simp
  then show ?case by (simp add: rows st st'_def)
qed

lemma extend_back_ok:
  "best_ok alo ahi blo bhi bst \<Longrightarrow> best_ok alo ahi blo bhi (extend_back a b alo blo bst)"
proof (induction a b alo blo bst rule: extend_back.induct)
  case (1 a b alo blo besti bestj bestsize)
  show ?case
  proof (cases "alo < besti \<and> blo < bestj \<and> a ! (besti - 1) = b ! (bestj - 1)")
    case True
    have ok: "best_ok alo ahi blo bhi (besti - 1, bestj - 1, bestsize + 1)"
      using 1(2) True by (auto simp: best_ok_def split: if_splits)
    have step: "extend_back a b alo blo (besti, bestj, bestsize)
              = extend_back a b alo blo (besti - 1, bestj - 1, bestsize + 1)"
      using True by (subst extend_back.simps) simp
    from 1(1)[OF True ok] show ?thesis unfolding step .
  next
    case False
    have "extend_back a b alo blo (besti, bestj, bestsize) = (besti, bestj, bestsize)"
      using False by (subst extend_back.simps) auto
    then show ?thesis using 1(2) by simp
  qed
qed

lemma extend_forward_ok:
  "best_ok alo ahi blo bhi bst \<Longrightarrow> best_ok alo ahi blo bhi (extend_forward a b ahi bhi bst)"
proof (induction a b ahi bhi bst rule: extend_forward.induct)
  case (1 a b ahi bhi besti bestj bestsize)
  show ?case
  proof (cases "besti + bestsize < ahi \<and> bestj + bestsize < bhi
                \<and> a ! (besti + bestsize) = b ! (bestj + bestsize)")
    case True
    have ok: "best_ok alo ahi blo bhi (besti, bestj, bestsize + 1)"
      using 1(2) True by (auto simp: best_ok_def split: if_splits)
    have step: "extend_forward a b ahi bhi (besti, bestj, bestsize)
              = extend_forward a b ahi bhi (besti, bestj, bestsize + 1)"
      using True by (subst extend_forward.simps) simp
    from 1(1)[OF True ok] show ?thesis unfolding step .
  next
    case False
    have "extend_forward a b ahi bhi (besti, bestj, bestsize) = (besti, bestj, bestsize)"
      using False by (subst extend_forward.simps) auto
    then show ?thesis using 1(2) by simp
  qed
qed

lemma find_longest_match_bounds:
  assumes "find_longest_match a b alo ahi blo bhi = (i, j, k)" "0 < k"
  shows "alo \<le> i \<and> i + k \<le> ahi \<and> blo \<le> j \<and> j + k \<le> bhi"
proof -
  have dp: "best_ok alo ahi blo bhi (outer_loop a b [alo..<ahi] blo bhi (\<lambda>j. 0, alo, blo, 0))"
  proof (cases "alo \<le> ahi")
    case True
    show ?thesis
      by (rule outer_loop_ok) (simp_all add: table_ok_def best_ok_def True)
  next
    case False
    then show ?thesis by (simp add: best_ok_def)
  qed
  have "best_ok alo ahi blo bhi (find_longest_match a b alo ahi blo bhi)"
    unfolding find_longest_match_def by (intro extend_forward_ok extend_back_ok dp)
  then show ?thesis using assms by (simp add: best_ok_def)
qed


text \<open>
  The loop of \<^verbatim>\<open>get_matching_blocks\<close>: a stack of ranges still to be matched (the head of
  the list is the top, popped first) and the blocks found. A range is
  \<open>(alo, ahi, blo, bhi)\<close>.
\<close>

type_synonym range = "nat \<times> nat \<times> nat \<times> nat"

definition weight :: "range list \<Rightarrow> nat" where
  "weight queue = sum_list (map (\<lambda>(alo, ahi, blo, bhi). 2 * (ahi - alo) + 1) queue)"

function matching_blocks_loop :: "string \<Rightarrow> string \<Rightarrow> range list \<Rightarrow> best list \<Rightarrow> best list" where
  "matching_blocks_loop a b [] blocks = blocks"
| "matching_blocks_loop a b ((alo, ahi, blo, bhi) # queue) blocks =
     (case find_longest_match a b alo ahi blo bhi of
        (i, j, k) \<Rightarrow>
          if k = 0 then matching_blocks_loop a b queue blocks
          else matching_blocks_loop a b
                 ((if i + k < ahi \<and> j + k < bhi then [(i + k, ahi, j + k, bhi)] else [])
                  @ (if alo < i \<and> blo < j then [(alo, i, blo, j)] else []) @ queue)
                 (blocks @ [(i, j, k)]))"
  by pat_completeness auto
termination
proof (relation "measure (\<lambda>(a, b, queue, blocks). weight queue)")
  show "wf (measure (\<lambda>(a, b, queue, blocks). weight queue))" by simp
next
  fix a b alo ahi blo bhi queue and blocks :: "best list" and i y j k
  assume "(i, y) = find_longest_match a b alo ahi blo bhi" "(j, k) = y" "k = 0"
  then show "((a, b, queue, blocks), (a, b, (alo, ahi, blo, bhi) # queue, blocks))
        \<in> measure (\<lambda>(a, b, queue, blocks). weight queue)"
    by (simp add: weight_def)
next
  fix a b alo ahi blo bhi queue and blocks :: "best list" and i y j k
  assume f: "(i, y) = find_longest_match a b alo ahi blo bhi" "(j, k) = y" and k: "k \<noteq> 0"
  then have "find_longest_match a b alo ahi blo bhi = (i, j, k)" by simp
  from find_longest_match_bounds[OF this] k
  have "alo \<le> i" "i + k \<le> ahi" by simp_all
  with k show "((a, b,
          (if i + k < ahi \<and> j + k < bhi then [(i + k, ahi, j + k, bhi)] else [])
          @ (if alo < i \<and> blo < j then [(alo, i, blo, j)] else []) @ queue,
          blocks @ [(i, j, k)]),
         (a, b, (alo, ahi, blo, bhi) # queue, blocks))
        \<in> measure (\<lambda>(a, b, queue, blocks). weight queue)"
    by (auto simp: weight_def)
qed

declare matching_blocks_loop.simps [simp del]

text \<open>
  \<^verbatim>\<open>ratio()\<close> is \<^verbatim>\<open>2.0 * matches / length\<close> for the total size \<open>matches\<close> of the matching
  blocks and the sum \<open>length\<close> of the two lengths, and \<open>1.0\<close> when both sequences are empty.
  Sorting the blocks, merging adjacent ones and appending the sentinel of size 0, as
  \<^verbatim>\<open>get_matching_blocks\<close> does before it returns, leave that total unchanged.
\<close>

definition matches :: "string \<Rightarrow> string \<Rightarrow> nat" where
  "matches a b =
     sum_list (map (\<lambda>(i, j, k). k) (matching_blocks_loop a b [(0, length a, 0, length b)] []))"

definition ratio :: "string \<Rightarrow> string \<Rightarrow> real" where
  "ratio a b =
     (if length a + length b \<noteq> 0 then 2 * real (matches a b) / real (length a + length b)
      else 1)"

subsection \<open>Capability matching (\<^verbatim>\<open>core/capability.py\<close>)\<close>

text \<open>
  \<^verbatim>\<open>str.lower()\<close> on the ASCII letters: a letter from \<open>A\<close> (65) to \<open>Z\<close> (90) has bit 5
  clear, and setting it adds 32. Strings are byte strings here, and other bytes are left as
  they are.
\<close>

definition lower_char :: "char \<Rightarrow> char" where
  "lower_char c =
     (if 65 \<le> (of_char c :: nat) \<and> (of_char c :: nat) \<le> 90
      then (case c of Char b0 b1 b2 b3 b4 b5 b6 b7 \<Rightarrow> Char b0 b1 b2 b3 b4 True b6 b7)
      else c)"

definition lower :: "string \<Rightarrow> string" where
  "lower s = map lower_char s"

text \<open>
  The manager holds the list \<open>capabilities\<close>. The constructor builds it with
  \<^verbatim>\<open>list(set(...))\<close>, whose order Python leaves open; \<open>remdups\<close> gives one such order.
\<close>

definition CapabilityManager_init :: "string list \<Rightarrow> string list" where
  "CapabilityManager_init capability_tags = remdups (map lower capability_tags)"

definition add_capability :: "string \<Rightarrow> string list \<Rightarrow> string list" where
  "add_capability tag capabilities =
     (if lower tag \<in> set capabilities then capabilities else capabilities @ [lower tag])"

definition remove_capability :: "string \<Rightarrow> string list \<Rightarrow> string list" where
  "remove_capability tag capabilities = remove1 (lower tag) capabilities"

text \<open>The loop of \<^verbatim>\<open>match\<close>: \<^verbatim>\<open>best_score = max(best_score, ratio)\<close> for every tag.\<close>

fun best_score_loop :: "string list \<Rightarrow> string \<Rightarrow> real \<Rightarrow> real" where
  "best_score_loop [] requirement_arg best_score = best_score"
| "best_score_loop (tag # rest) requirement_arg best_score =
     best_score_loop rest requirement_arg (max best_score (ratio tag requirement_arg))"

definition match :: "string list \<Rightarrow> string \<Rightarrow> real" where
  "match capabilities requirement_arg = round3 (best_score_loop capabilities (lower requirement_arg) 0)"

definition match_and_filter :: "string list \<Rightarrow> string \<Rightarrow> real \<Rightarrow> bool" where
  "match_and_filter capabilities requirement_arg threshold \<longleftrightarrow> threshold \<le> match capabilities requirement_arg"

text \<open>
  For a sequence compared with itself: the length of the run of equal elements with an
  entry in \<open>b2j\<close> that ends at the positions \<open>i\<close> and \<open>j\<close>.
\<close>

fun common_run :: "string \<Rightarrow> nat \<Rightarrow> nat \<Rightarrow> nat" where
  "common_run x 0 j = (if x ! 0 = x ! j \<and> \<not> popular x (x ! 0) then 1 else 0)"
| "common_run x (Suc i) 0 = (if x ! Suc i = x ! 0 \<and> \<not> popular x (x ! Suc i) then 1 else 0)"
| "common_run x (Suc i) (Suc j) =
     (if x ! Suc i = x ! Suc j \<and> \<not> popular x (x ! Suc i) then Suc (common_run x i j) else 0)"

text \<open>
  Two measures of the loop of \<^verbatim>\<open>get_matching_blocks\<close>: the total size of the blocks found,
  and the room that the ranges still on the stack leave for further blocks.
\<close>

definition room :: "range list \<Rightarrow> nat" where
  "room queue = sum_list (map (\<lambda>(alo, ahi, blo, bhi). min (ahi - alo) (bhi - blo)) queue)"

definition total :: "best list \<Rightarrow> nat" where
  "total blocks = sum_list (map (\<lambda>(i, j, k). k) blocks)"

section \<open>Properties\<close>

subsection \<open>Executor selection\<close>

lemma mset_sorted_reverse: "mset (sorted_reverse key xs) = mset xs"
  by (simp add: sorted_reverse_def)

lemma descending_sorted_reverse: "descending (sorted_reverse snd xs)"
proof -
  have "sorted (map snd (sort_key snd (rev xs)))" by simp
  then have "sorted_wrt (\<lambda>a b. snd a \<le> snd b) (sort_key snd (rev xs))"
    by (simp add: sorted_map)
  then show ?thesis
    by (simp add: descending_def sorted_reverse_def sorted_wrt_rev)
qed

lemma find_self_Some:
  "find_self a b i xs = Some j \<Longrightarrow> i \<le> j \<and> j - i < length xs \<and> xs ! (j - i) = (a, b)"
proof (induction xs arbitrary: i)
  case Nil then show ?case by simp
next
  case (Cons c cs)
  obtain cid sc where c: "c = (cid, sc)" by (cases c)
  show ?case
  proof (cases "cid = a \<and> sc = b")
    case True with Cons.prems c show ?thesis by simp
  next
    case False
    with Cons.prems c have "find_self a b (Suc i) cs = Some j" by auto
    from Cons.IH[OF this] have "Suc i \<le> j" "j - Suc i < length cs" "cs ! (j - Suc i) = (a, b)" by auto
    moreover from this have "j - i = Suc (j - Suc i)" by arith
    ultimately show ?thesis by simp
  qed
qed

lemma find_self_None: "find_self a b i xs = None \<Longrightarrow> (a, b) \<notin> set xs"
  by (induction xs arbitrary: i) (auto split: if_splits)

lemma descending_map: "descending cs = sorted_wrt (\<lambda>x y. y \<le> x) (map snd cs)"
  by (simp add: descending_def sorted_wrt_map)

lemma prioritize_cases:
  "prioritize_self_execution a cs = cs \<or>
   (\<exists>i. i < length cs \<and> cs \<noteq> [] \<and> cs ! i = (a, snd (hd cs))
     \<and> prioritize_self_execution a cs = (cs[i := hd cs])[0 := cs ! i])"
proof (cases cs)
  case Nil then show ?thesis by (simp add: prioritize_self_execution_def)
next
  case (Cons c0 rest)
  show ?thesis
  proof (cases "find_self a (snd c0) 0 cs")
    case None then show ?thesis using Cons by (simp add: prioritize_self_execution_def)
  next
    case (Some i)
    from find_self_Some[OF Some] have "i < length cs" "cs ! i = (a, snd c0)" by auto
    then show ?thesis using Cons Some by (auto simp add: prioritize_self_execution_def)
  qed
qed

lemma mset_prioritize: "mset (prioritize_self_execution a cs) = mset cs"
proof -
  from prioritize_cases[of a cs] show ?thesis
  proof
    assume "prioritize_self_execution a cs = cs" then show ?thesis by simp
  next
    assume "\<exists>i. i < length cs \<and> cs \<noteq> [] \<and> cs ! i = (a, snd (hd cs))
     \<and> prioritize_self_execution a cs = (cs[i := hd cs])[0 := cs ! i]"
    then obtain i where i: "i < length cs" "cs \<noteq> []"
      "prioritize_self_execution a cs = (cs[i := hd cs])[0 := cs ! i]" by blast
    have "hd cs = cs ! 0" using i(2) by (simp add: hd_conv_nth)
    then have "prioritize_self_execution a cs = cs[i := cs ! 0, 0 := cs ! i]" using i(3) by simp
    moreover have "0 < length cs" using i(2) by simp
    ultimately show ?thesis using mset_swap[of 0 cs i] i(1) by simp
  qed
qed

lemma scores_prioritize: "map snd (prioritize_self_execution a cs) = map snd cs"
proof -
  from prioritize_cases[of a cs] show ?thesis
  proof
    assume "prioritize_self_execution a cs = cs" then show ?thesis by simp
  next
    assume "\<exists>i. i < length cs \<and> cs \<noteq> [] \<and> cs ! i = (a, snd (hd cs))
     \<and> prioritize_self_execution a cs = (cs[i := hd cs])[0 := cs ! i]"
    then obtain i where i: "i < length cs" "cs \<noteq> []" "cs ! i = (a, snd (hd cs))"
      "prioritize_self_execution a cs = (cs[i := hd cs])[0 := cs ! i]" by blast
    have hd0: "hd cs = cs ! 0" using i(2) by (simp add: hd_conv_nth)
    have "map snd ((cs[i := hd cs])[0 := cs ! i]) = ((map snd cs)[i := snd (hd cs)])[0 := snd (cs ! i)]"
      by (simp add: map_update)
    also have "\<dots> = ((map snd cs)[i := (map snd cs) ! i])[0 := (map snd cs) ! 0]"
      using i hd0 by simp
    also have "\<dots> = map snd cs" by simp
    finally show ?thesis using i(4) by simp
  qed
qed

lemma descending_prioritize: "descending cs \<Longrightarrow> descending (prioritize_self_execution a cs)"
  by (simp add: descending_map scores_prioritize)

lemma descending_hd_max:
  assumes "descending cs" "c \<in> set cs"
  shows "snd c \<le> snd (hd cs)"
proof (cases cs)
  case Nil with assms show ?thesis by simp
next
  case (Cons c0 rest)
  with assms show ?thesis by (auto simp: descending_def)
qed

lemma ranked_self_first:
  assumes mem: "(a, s) \<in> set cs" and top: "\<forall>c \<in> set cs. snd c \<le> s"
  shows "ranked a cs \<noteq> [] \<and> hd (ranked a cs) = (a, s)"
proof -
  define xs where "xs = sorted_reverse snd cs"
  have set_xs: "set xs = set cs"
    using mset_sorted_reverse[of snd cs] by (metis xs_def set_mset_mset)
  then have ne: "xs \<noteq> []" using mem by auto
  then obtain c0 rest where xs: "xs = c0 # rest" by (cases xs) auto
  have "descending xs" by (simp add: xs_def descending_sorted_reverse)
  moreover have "(a, s) \<in> set xs" using mem set_xs by simp
  ultimately have "s \<le> snd c0" using descending_hd_max[of xs "(a, s)"] xs by simp
  moreover have "snd c0 \<le> s" using top set_xs xs by auto
  ultimately have best: "snd c0 = s" by simp
  have "find_self a s 0 xs \<noteq> None" using find_self_None[of a s 0 xs] mem set_xs by auto
  then obtain i where i: "find_self a s 0 xs = Some i" by auto
  from find_self_Some[OF i] have il: "i < length xs" and xi: "xs ! i = (a, s)" by auto
  have "prioritize_self_execution a xs = (xs[i := c0])[0 := xs ! i]"
    using xs i best by (simp add: prioritize_self_execution_def)
  then have "prioritize_self_execution a xs = (a, s) # tl (xs[i := c0])"
    using xi xs by (cases i) (simp_all add: list_update_code)
  then show ?thesis by (simp add: ranked_def xs_def)
qed

lemma example_selection:
  "select_best_executors ''self'' [(''A'', 0.8), (''self'', 0.8), (''B'', 0.6)] 1 = [(''self'', 0.8)]"
  by (simp add: select_best_executors_def slice_to_def sorted_reverse_def prioritize_self_execution_def)

text \<open>
  Claim C4. The selection is the top \<open>K\<close> of a ranking of all candidates
  (\<open>ranked\<close>): a rearrangement of the candidate list in descending order of match score
  in which, whenever the agent's own id is among the entries with the top score, that entry
  stands at rank 0. For the candidates (A, 0.8), (self, 0.8), (B, 0.6) and \<open>K = 1\<close>
  the selection is the agent itself.
\<close>

theorem select_best_executors_ranks_self_first:
  "select_best_executors self_id candidates k = slice_to k (ranked self_id candidates)
   \<and> (0 \<le> k \<longrightarrow> select_best_executors self_id candidates k = take (nat k) (ranked self_id candidates))
   \<and> mset (ranked self_id candidates) = mset candidates
   \<and> descending (ranked self_id candidates)
   \<and> ((self_id, s) \<in> set candidates \<and> (\<forall>c \<in> set candidates. snd c \<le> s)
        \<longrightarrow> ranked self_id candidates \<noteq> [] \<and> hd (ranked self_id candidates) = (self_id, s))
   \<and> select_best_executors ''self'' [(''A'', 0.8), (''self'', 0.8), (''B'', 0.6)] 1 = [(''self'', 0.8)]"
proof -
  have "select_best_executors self_id candidates k = slice_to k (ranked self_id candidates)"
    by (simp add: select_best_executors_def ranked_def)
  moreover have "mset (ranked self_id candidates) = mset candidates"
    by (simp add: ranked_def mset_prioritize mset_sorted_reverse)
  moreover have "descending (ranked self_id candidates)"
    by (simp add: ranked_def descending_prioritize descending_sorted_reverse)
  ultimately show ?thesis
    using ranked_self_first[of self_id s candidates] example_selection
    by (simp add: slice_to_def)
qed

theorem select_best_executors_witness:
  "hd (ranked ''self'' [(''A'', 0.8), (''self'', 0.8), (''B'', 0.6)]) = (''self'', 0.8)
   \<and> select_best_executors ''self'' [(''A'', 0.8), (''self'', 0.8), (''B'', 0.6)] 1
       = take (nat 1) (ranked ''self'' [(''A'', 0.8), (''self'', 0.8), (''B'', 0.6)])"
proof -
  have mem: "(''self'', 0.8) \<in> set [(''A'', 0.8), (''self'', 0.8), (''B'', 0.6::real)]" by simp
  have top: "\<forall>c \<in> set [(''A'', 0.8), (''self'', 0.8), (''B'', 0.6::real)]. snd c \<le> 0.8" by simp
  have k: "(0::int) \<le> 1" by simp
  from select_best_executors_ranks_self_first
         [of "''self''" "[(''A'', 0.8), (''self'', 0.8), (''B'', 0.6)]" 1 "0.8"] mem top k
  show ?thesis by blast
qed

subsection \<open>The User constructor\<close>

lemma initialize_neighbors_error:
  "initialize_neighbors e ns nb = Inl err \<Longrightarrow> err = ValueError ''Invalid neighbor configuration''"
proof (induction ns arbitrary: nb)
  case Nil then show ?case by simp
next
  case (Cons n ns)
  then show ?case
    by (auto split: list.splits option.splits)
qed

lemma User_init_rejects: "cc \<le> 0 \<Longrightarrow> User_init e cfg cc = ([], Inl (ValueError ''Consensus count must be positive''))"
  by (simp add: User_init_def)

lemma User_init_accepts:
  assumes "1 \<le> cc"
  shows "snd (User_init e cfg cc) \<noteq> Inl (ValueError ''Consensus count must be positive'')"
    and "snd (User_init e cfg cc) = Inr u \<Longrightarrow> consensus_count u = cc"
  using assms
  by (auto simp: User_init_def split: option.splits sum.splits if_splits dest: initialize_neighbors_error)

lemma UserRunner_init_accepts:
  assumes "1 \<le> n" "snd (UserRunner_init e path n) = Inr r"
  shows "cot_num r = n \<and> consensus_count (user r) = n"
proof -
  obtain effs res where ui: "User_init e (load_config_from_file e path) n = (effs, res)"
    by (cases "User_init e (load_config_from_file e path) n")
  show ?thesis
  proof (cases res)
    case (Inl err)
    with assms ui show ?thesis by (simp add: UserRunner_init_def)
  next
    case (Inr u)
    then have "snd (User_init e (load_config_from_file e path) n) = Inr u" using ui by simp
    from User_init_accepts(2)[OF assms(1) this] have "consensus_count u = n" .
    with assms ui Inr show ?thesis by (auto simp: UserRunner_init_def)
  qed
qed

text \<open>
  Claim C10. The User constructor raises ValueError for every consensus count that is not
  positive, with no network or client state created (the list of effects is empty); for
  every consensus count of at least 1 that check does not raise, and a constructor that
  returns has stored the count unchanged. The constructor of UserRunner makes the same
  check on its \<open>cot_num\<close> before it loads the configuration.
\<close>

theorem User_init_consensus_count:
  "(cc \<le> 0 \<longrightarrow> User_init e cfg cc = ([], Inl (ValueError ''Consensus count must be positive'')))
   \<and> (1 \<le> cc \<longrightarrow>
         snd (User_init e cfg cc) \<noteq> Inl (ValueError ''Consensus count must be positive'')
         \<and> (\<forall>u. snd (User_init e cfg cc) = Inr u \<longrightarrow> consensus_count u = cc))
   \<and> (cc < 1 \<longrightarrow>
         UserRunner_init e path cc = ([], Inl (ValueError ''Chain of Thought number must be at least 1'')))
   \<and> (1 \<le> cc \<longrightarrow>
         (\<forall>r. snd (UserRunner_init e path cc) = Inr r \<longrightarrow> cot_num r = cc \<and> consensus_count (user r) = cc))"
proof -
  have "cc < 1 \<longrightarrow>
         UserRunner_init e path cc = ([], Inl (ValueError ''Chain of Thought number must be at least 1''))"
    by (simp add: UserRunner_init_def)
  then show ?thesis
    using User_init_rejects[of cc e cfg] User_init_accepts[of cc e cfg] UserRunner_init_accepts[of cc e path]
    by blast
qed

theorem User_init_consensus_count_witness:
  "User_init \<lparr>bind_ok = True, int_of = (\<lambda>s. None), load_config_from_file = (\<lambda>p. \<lparr>node_id = None, network = None, neighbours = None\<rparr>)\<rparr>
      \<lparr>node_id = Some ''user-1'', network = Some (''127.0.0.1'', 8000),
       neighbours = Some [[SStr ''agent-002'', SStr ''127.0.0.1'', SInt 8000]]\<rparr> 0
     = ([], Inl (ValueError ''Consensus count must be positive''))
   \<and> (\<exists>u. snd (User_init \<lparr>bind_ok = True, int_of = (\<lambda>s. None), load_config_from_file = (\<lambda>p. \<lparr>node_id = None, network = None, neighbours = None\<rparr>)\<rparr>
      \<lparr>node_id = Some ''user-1'', network = Some (''127.0.0.1'', 8000),
       neighbours = Some [[SStr ''agent-002'', SStr ''127.0.0.1'', SInt 8000]]\<rparr> 3) = Inr u
        \<and> consensus_count u = 3)"
proof -
  let ?e = "\<lparr>bind_ok = True, int_of = (\<lambda>s. None), load_config_from_file = (\<lambda>p. \<lparr>node_id = None, network = None, neighbours = None\<rparr>)\<rparr>"
  let ?cfg = "\<lparr>node_id = Some ''user-1'', network = Some (''127.0.0.1'', 8000),
       neighbours = Some [[SStr ''agent-002'', SStr ''127.0.0.1'', SInt 8000]]\<rparr>"
  have lo: "(0::int) \<le> 0" and hi: "(1::int) \<le> 3" by simp_all
  have ret: "\<exists>u. snd (User_init ?e ?cfg 3) = Inr u"
    by (simp add: User_init_def py_int_def)
  from User_init_consensus_count[of 0 ?e ?cfg "''p''"] lo
  have "User_init ?e ?cfg 0 = ([], Inl (ValueError ''Consensus count must be positive''))" by blast
  moreover from User_init_consensus_count[of 3 ?e ?cfg "''p''"] hi ret
  have "\<exists>u. snd (User_init ?e ?cfg 3) = Inr u \<and> consensus_count u = 3" by blast
  ultimately show ?thesis by blast
qed

subsection \<open>Plurality voting\<close>

text \<open>The distinct elements of a list in the order of their first occurrence.\<close>

lemma keys_counter_add:
  "map fst (counter_add x c) = (if x \<in> fst ` set c then map fst c else map fst c @ [x])"
  by (induction c) (force+)

lemma map_of_counter_add:
  "map_of (counter_add x c) =
     (map_of c)(x \<mapsto> (case map_of c x of None \<Rightarrow> 1 | Some n \<Rightarrow> n + 1))"
  by (induction c) (auto simp: fun_eq_iff)

lemma Counter_snoc: "Counter (xs @ [x]) = counter_add x (Counter xs)"
  by (simp add: Counter_def)

lemma keys_Counter_set: "fst ` set (Counter xs) = set xs"
proof (induction xs rule: rev_induct)
  case Nil then show ?case by (simp add: Counter_def)
next
  case (snoc x xs)
  have "set (map fst (Counter (xs @ [x]))) = set (xs @ [x])"
    unfolding Counter_snoc keys_counter_add using snoc by auto
  then show ?case by simp
qed

lemma keys_Counter_distinct: "distinct (map fst (Counter xs))"
proof (induction xs rule: rev_induct)
  case Nil then show ?case by (simp add: Counter_def)
next
  case (snoc x xs)
  then show ?case unfolding Counter_snoc keys_counter_add by auto
qed

lemma map_of_Counter:
  "map_of (Counter xs) x = (if x \<in> set xs then Some (count_list xs x) else None)"
proof (induction xs rule: rev_induct)
  case Nil then show ?case by (simp add: Counter_def)
next
  case (snoc y xs)
  then show ?case unfolding Counter_snoc map_of_counter_add by auto
qed

lemma Counter_entry: "(x, n) \<in> set (Counter xs) \<Longrightarrow> x \<in> set xs \<and> n = count_list xs x"
proof -
  assume a: "(x, n) \<in> set (Counter xs)"
  then have "map_of (Counter xs) x = Some n" using keys_Counter_distinct[of xs] by simp
  then show ?thesis using map_of_Counter[of xs x] by (auto split: if_splits)
qed

text \<open>
  The keys of the counter stand in the order in which the answers were first received:
  whatever was first received before \<open>w\<close> stands before \<open>w\<close>.
\<close>

lemma keys_Counter_order:
  "map fst (Counter xs) = pre @ w # post \<Longrightarrow> set (takeWhile (\<lambda>y. y \<noteq> w) xs) \<subseteq> set pre"
proof (induction xs arbitrary: pre post rule: rev_induct)
  case Nil then show ?case by (simp add: Counter_def)
next
  case (snoc x xs)
  show ?case
  proof (cases "x \<in> set xs")
    case True
    then have k: "map fst (Counter (xs @ [x])) = map fst (Counter xs)"
      unfolding Counter_snoc keys_counter_add using keys_Counter_set[of xs] by simp
    with snoc.prems have d: "map fst (Counter xs) = pre @ w # post" by simp
    then have "w \<in> set xs" using keys_Counter_set[of xs]
      by (metis in_set_conv_decomp list.set_map)
    then have "takeWhile (\<lambda>y. y \<noteq> w) (xs @ [x]) = takeWhile (\<lambda>y. y \<noteq> w) xs"
      by simp
    then show ?thesis using snoc.IH[OF d] by simp
  next
    case False
    then have k: "map fst (Counter xs) @ [x] = pre @ w # post"
      using snoc.prems unfolding Counter_snoc keys_counter_add using keys_Counter_set[of xs] by simp
    show ?thesis
    proof (cases post rule: rev_cases)
      case Nil
      with k have pre: "map fst (Counter xs) = pre" and w: "w = x" by auto
      then have "set pre = set xs" using keys_Counter_set[of xs] by (metis list.set_map)
      moreover have "set (takeWhile (\<lambda>y. y \<noteq> w) (xs @ [x])) \<subseteq> set xs"
        using w by (auto dest: set_takeWhileD)
      ultimately show ?thesis by simp
    next
      case (snoc post' z)
      with k have d: "map fst (Counter xs) = pre @ w # post'" by simp
      then have "w \<in> set xs" using keys_Counter_set[of xs]
        by (metis in_set_conv_decomp list.set_map)
      then have "takeWhile (\<lambda>y. y \<noteq> w) (xs @ [x]) = takeWhile (\<lambda>y. y \<noteq> w) xs"
        by simp
      then show ?thesis using snoc.IH[OF d] by simp
    qed
  qed
qed

lemma max_by_first_maximum:
  "\<exists>pre post. best # ys = pre @ max_by key best ys # post
      \<and> (\<forall>p \<in> set pre. key p < key (max_by key best ys))
      \<and> (\<forall>p \<in> set post. key p \<le> key (max_by key best ys))"
proof (induction ys arbitrary: best)
  case Nil
  have "[best] = [] @ max_by key best [] # []" by simp
  then show ?case by fastforce
next
  case (Cons y ys)
  show ?case
  proof (cases "key best < key y")
    case True
    then have eq: "max_by key best (y # ys) = max_by key y ys" by simp
    from Cons.IH[of y] obtain pre post where
      d: "y # ys = pre @ max_by key y ys # post"
      and lt: "\<forall>p \<in> set pre. key p < key (max_by key y ys)"
      and le: "\<forall>p \<in> set post. key p \<le> key (max_by key y ys)" by blast
    have "key y \<le> key (max_by key y ys)"
    proof (cases pre)
      case Nil
      with d have "y = max_by key y ys" by (metis append_Nil list.inject)
      then have "key y = key (max_by key y ys)" by (rule arg_cong)
      then show ?thesis by simp
    next
      case (Cons a list) with d lt show ?thesis by auto
    qed
    with True have b: "key best < key (max_by key y ys)" by simp
    have 1: "best # y # ys = (best # pre) @ max_by key best (y # ys) # post"
      using d eq by simp
    have 2: "\<forall>p \<in> set (best # pre). key p < key (max_by key best (y # ys))"
      using lt b eq by simp
    have 3: "\<forall>p \<in> set post. key p \<le> key (max_by key best (y # ys))"
      using le eq by simp
    from 1 2 3 show ?thesis by blast
  next
    case False
    then have eq: "max_by key best (y # ys) = max_by key best ys" by simp
    from Cons.IH[of best] obtain pre post where
      d: "best # ys = pre @ max_by key best ys # post"
      and lt: "\<forall>p \<in> set pre. key p < key (max_by key best ys)"
      and le: "\<forall>p \<in> set post. key p \<le> key (max_by key best ys)" by blast
    show ?thesis
    proof (cases pre)
      case Nil
      with d have b: "best = max_by key best ys" and p: "post = ys"
        by (metis append_Nil list.inject)+
      have 1: "best # y # ys = [] @ max_by key best (y # ys) # (y # ys)"
        using b eq by simp
      have "key y \<le> key best" using False by simp
      then have "key y \<le> key (max_by key best ys)" using b by simp
      then have 3: "\<forall>p \<in> set (y # ys). key p \<le> key (max_by key best (y # ys))"
        using le p eq by simp
      have 2: "\<forall>p \<in> set []. key p < key (max_by key best (y # ys))" by simp
      from 1 2 3 show ?thesis by blast
    next
      case (Cons a pre')
      with d have a: "a = best" and d': "ys = pre' @ max_by key best ys # post" by auto
      from lt Cons a have bl: "key best < key (max_by key best ys)" by simp
      with False have yl: "key y < key (max_by key best ys)" by simp
      have 1: "best # y # ys = (best # y # pre') @ max_by key best (y # ys) # post"
        using d' eq by simp
      have 2: "\<forall>p \<in> set (best # y # pre'). key p < key (max_by key best (y # ys))"
        using lt Cons bl yl eq by simp
      have 3: "\<forall>p \<in> set post. key p \<le> key (max_by key best (y # ys))"
        using le eq by simp
      from 1 2 3 show ?thesis by blast
    qed
  qed
qed

lemma vote_results_winner:
  assumes ne: "collected \<noteq> []"
  shows "\<exists>w. vote_results collected = Inr w \<and> w \<in> set collected
        \<and> (\<forall>x. count_list collected x \<le> count_list collected w)
        \<and> (\<forall>x \<in> set (takeWhile (\<lambda>y. y \<noteq> w) collected). count_list collected x < count_list collected w)"
proof -
  have "fst ` set (Counter collected) \<noteq> {}" using ne keys_Counter_set[of collected] by simp
  then obtain h t where c: "Counter collected = h # t" by (cases "Counter collected") auto
  define m where "m = max_by snd h t"
  from max_by_first_maximum[of h t snd] obtain pre post where
    d: "Counter collected = pre @ m # post"
    and lt: "\<forall>p \<in> set pre. snd p < snd m"
    and le: "\<forall>p \<in> set post. snd p \<le> snd m"
    unfolding m_def c by blast
  have vote: "vote_results collected = Inr (fst m)"
    using ne c by (simp add: vote_results_def most_common_1_def m_def)
  have "m \<in> set (Counter collected)" using d by simp
  then have "(fst m, snd m) \<in> set (Counter collected)" by simp
  from Counter_entry[OF this] have mem: "fst m \<in> set collected"
    and cnt: "snd m = count_list collected (fst m)" by simp_all
  have all: "\<forall>p \<in> set (Counter collected). snd p \<le> snd m" using d lt le by auto
  have max: "count_list collected x \<le> count_list collected (fst m)" for x
  proof (cases "x \<in> set collected")
    case True
    then have "map_of (Counter collected) x = Some (count_list collected x)"
      by (simp add: map_of_Counter)
    then have "(x, count_list collected x) \<in> set (Counter collected)" by (rule map_of_SomeD)
    with all cnt show ?thesis by force
  next
    case False
    then show ?thesis by (simp add: count_list_0_iff)
  qed
  have first: "count_list collected x < count_list collected (fst m)"
    if x: "x \<in> set (takeWhile (\<lambda>y. y \<noteq> fst m) collected)" for x
  proof -
    have "map fst (Counter collected) = map fst pre @ fst m # map fst post" using d by simp
    from keys_Counter_order[OF this] x have "x \<in> set (map fst pre)" by blast
    then obtain n where xn: "(x, n) \<in> set pre" by auto
    then have "(x, n) \<in> set (Counter collected)" using d by simp
    from Counter_entry[OF this] have "n = count_list collected x" by simp
    with lt xn cnt show ?thesis by force
  qed
  from vote mem max first show ?thesis by blast
qed

lemma listen_results_append:
  "listen_results (ms @ ns) r = listen_results ns (listen_results ms r)"
  by (induction ms arbitrary: r) simp_all

lemma listen_results_below:
  "int (length (current_answers r) + length ms) < cot_num r \<Longrightarrow>
   listen_results ms r =
     r\<lparr>current_answers := current_answers r @ map result ms,
       full_answers := full_answers r @ map tr_previous_results ms\<rparr>"
proof (induction ms arbitrary: r)
  case Nil then show ?case by simp
next
  case (Cons m ms)
  have step: "on_task_result m r =
     r\<lparr>current_answers := current_answers r @ [result m],
       full_answers := full_answers r @ [tr_previous_results m]\<rparr>"
    using Cons.prems by (simp add: on_task_result_def Let_def)
  have "int (length (current_answers (on_task_result m r)) + length ms) < cot_num (on_task_result m r)"
    using Cons.prems by (simp add: step)
  from Cons.IH[OF this] show ?case by (simp add: step)
qed

lemma listen_results_threshold:
  assumes n: "cot_num r = int (length ms)" and ne: "ms \<noteq> []" and fresh: "current_answers r = []"
  shows "vote_results (map result ms) = Inr (final_result (listen_results ms r))
       \<and> result_event (listen_results ms r)
       \<and> current_answers (listen_results ms r) = map result ms
       \<and> result_event (listen_results (butlast ms) r) = result_event r
       \<and> final_result (listen_results (butlast ms) r) = final_result r"
proof -
  from ne obtain ms' m where ms: "ms = ms' @ [m]" by (cases ms rule: rev_cases) auto
  have below: "int (length (current_answers r) + length ms') < cot_num r"
    using n fresh ms by simp
  define r1 where "r1 = listen_results ms' r"
  have r1: "r1 = r\<lparr>current_answers := map result ms',
       full_answers := full_answers r @ map tr_previous_results ms'\<rparr>"
    using listen_results_below[OF below] fresh by (simp add: r1_def)
  have last: "listen_results ms r = on_task_result m r1"
    by (simp add: ms listen_results_append r1_def)
  have "map result ms \<noteq> []" using ne by simp
  from vote_results_winner[OF this] obtain w where w: "vote_results (map result ms) = Inr w" by blast
  have cur: "current_answers r1 @ [result m] = map result ms" by (simp add: r1 ms)
  have thr: "cot_num r1 \<le> int (length (current_answers r1 @ [result m]))"
    using n by (simp add: r1 ms)
  have "on_task_result m r1 =
     r1\<lparr>current_answers := map result ms,
        full_answers := full_answers r1 @ [tr_previous_results m],
        final_result := w, answers := answers r1 @ [w], result_event := True\<rparr>"
    using thr w cur by (simp add: on_task_result_def Let_def)
  with last w have "vote_results (map result ms) = Inr (final_result (listen_results ms r))"
    "result_event (listen_results ms r)" "current_answers (listen_results ms r) = map result ms"
    by simp_all
  moreover have "result_event (listen_results (butlast ms) r) = result_event r"
    "final_result (listen_results (butlast ms) r) = final_result r"
    using r1 by (simp_all add: ms r1_def)
  ultimately show ?thesis by blast
qed

lemma vote_examples:
  "vote_results [''4'', ''4'', ''5''] = Inr ''4''"
  "vote_results [''a'', ''b''] = Inr ''a''"
  "vote_results [''b'', ''a''] = Inr ''b''"
  by (simp_all add: vote_results_def most_common_1_def Counter_def)

text \<open>
  Claim C3. For a non-empty list of collected answers the vote returns an answer of the
  list with the greatest number of occurrences under equality of strings, and every
  answer first received before the winner has strictly fewer occurrences: among several
  answers with the greatest count the winner is the one counted first. When the listener
  starts with no answers and receives as many results as the consensus count, the vote over
  exactly these answers is published as the final result and the event is set, not before
  the last of them. The answers 4, 4, 5 yield 4; the answers a, b yield a and the answers
  b, a yield b.
\<close>

theorem vote_results_plurality:
  "(collected \<noteq> [] \<longrightarrow>
      (\<exists>w. vote_results collected = Inr w \<and> w \<in> set collected
        \<and> (\<forall>x. count_list collected x \<le> count_list collected w)
        \<and> (\<forall>x \<in> set (takeWhile (\<lambda>y. y \<noteq> w) collected).
               count_list collected x < count_list collected w)))
   \<and> (cot_num r = int (length ms) \<and> ms \<noteq> [] \<and> current_answers r = [] \<longrightarrow>
        vote_results (map result ms) = Inr (final_result (listen_results ms r))
        \<and> result_event (listen_results ms r)
        \<and> result_event (listen_results (butlast ms) r) = result_event r
        \<and> final_result (listen_results (butlast ms) r) = final_result r)
   \<and> vote_results [''4'', ''4'', ''5''] = Inr ''4''
   \<and> vote_results [''a'', ''b''] = Inr ''a''
   \<and> vote_results [''b'', ''a''] = Inr ''b''"
  using vote_results_winner[of collected] listen_results_threshold[of r ms] vote_examples
  by blast

theorem vote_results_plurality_witness:
  "final_result (listen_results
      [\<lparr>target_id = ''u'', executer_id = ''a1'', result = ''4'', tr_previous_results = []\<rparr>,
       \<lparr>target_id = ''u'', executer_id = ''a2'', result = ''4'', tr_previous_results = []\<rparr>,
       \<lparr>target_id = ''u'', executer_id = ''a3'', result = ''5'', tr_previous_results = []\<rparr>]
      \<lparr>user = \<lparr>user_id = ''u'', consensus_count = 3, neighbors = Map.empty\<rparr>, cot_num = 3,
        running = True, answers = [], current_answers = [], full_answers = [],
        result_event = False, final_result = ''''\<rparr>) = ''4''
   \<and> (\<exists>w. vote_results [''a'', ''b'', ''b'', ''a''] = Inr w \<and> w = ''a'')"
proof -
  let ?ms = "[\<lparr>target_id = ''u'', executer_id = ''a1'', result = ''4'', tr_previous_results = []\<rparr>,
       \<lparr>target_id = ''u'', executer_id = ''a2'', result = ''4'', tr_previous_results = []\<rparr>,
       \<lparr>target_id = ''u'', executer_id = ''a3'', result = ''5'', tr_previous_results = []\<rparr>]"
  let ?r = "\<lparr>user = \<lparr>user_id = ''u'', consensus_count = 3, neighbors = Map.empty\<rparr>, cot_num = 3,
        running = True, answers = [], current_answers = [], full_answers = [],
        result_event = False, final_result = ''''\<rparr>"
  have h: "cot_num ?r = int (length ?ms) \<and> ?ms \<noteq> [] \<and> current_answers ?r = []" by simp
  have ne: "[''a'', ''b'', ''b'', ''a''] \<noteq> []" by simp
  from vote_results_plurality[of "[''a'', ''b'', ''b'', ''a'']" ?r ?ms] h ne
  have 1: "vote_results (map result ?ms) = Inr (final_result (listen_results ?ms ?r))"
    and 2: "\<exists>w. vote_results [''a'', ''b'', ''b'', ''a''] = Inr w \<and> w \<in> set [''a'', ''b'', ''b'', ''a'']
        \<and> (\<forall>x. count_list [''a'', ''b'', ''b'', ''a''] x \<le> count_list [''a'', ''b'', ''b'', ''a''] w)
        \<and> (\<forall>x \<in> set (takeWhile (\<lambda>y. y \<noteq> w) [''a'', ''b'', ''b'', ''a'']).
               count_list [''a'', ''b'', ''b'', ''a''] x < count_list [''a'', ''b'', ''b'', ''a''] w)"
    and 3: "vote_results [''4'', ''4'', ''5''] = Inr ''4''"
    by blast+
  from 1 3 have a: "final_result (listen_results ?ms ?r) = ''4''" by simp
  from 2 obtain w where w: "vote_results [''a'', ''b'', ''b'', ''a''] = Inr w"
    "w \<in> set [''a'', ''b'', ''b'', ''a'']"
    "\<forall>x \<in> set (takeWhile (\<lambda>y. y \<noteq> w) [''a'', ''b'', ''b'', ''a'']).
               count_list [''a'', ''b'', ''b'', ''a''] x < count_list [''a'', ''b'', ''b'', ''a''] w"
    by blast
  have "w = ''a''"
  proof (rule ccontr)
    assume "w \<noteq> ''a''"
    with w(2) have "w = ''b''" by simp
    with w(3) show False by simp
  qed
  with w(1) a show ?thesis by blast
qed

subsection \<open>Checkpoints of the batch driver\<close>

lemma upt_12: "[0..<12] = [0,1,2,3,4,5,6,7,8,9,10,11]"
  by (simp add: upt_rec)

lemma batch_loop_all_returned:
  assumes "all_returned tasks"
    and "processed_count b + int (length tasks) \<le> mp"
    and "int (length (tasks_to_save b)) = processed_count b mod 5"
  shows "map length (save_calls (batch_loop (\<lambda>n. False) mp tasks b))
           = map length (save_calls b) @ replicate ((length (tasks_to_save b) + length tasks) div 5) 5
       \<and> length (tasks_to_save (batch_loop (\<lambda>n. False) mp tasks b))
           = (length (tasks_to_save b) + length tasks) mod 5"
  using assms
proof (induction tasks arbitrary: b)
  case Nil
  have "int (length (tasks_to_save b)) < 5" using Nil.prems(3) by simp
  then show ?case by simp
next
  case (Cons p rest)
  obtain t oc where p: "p = (t, oc)" by (cases p)
  from Cons.prems(1) p obtain a f where oc: "oc = Returned a f" and rest: "all_returned rest"
    by (auto simp: all_returned_def split: outcome.splits)
  define k where "k = length (tasks_to_save b)"
  have k5: "int k = processed_count b mod 5" using Cons.prems(3) by (simp add: k_def)
  have "processed_count b mod 5 < 5" by simp
  with k5 have klt: "k < 5" by linarith
  define b1 where "b1 = b\<lparr>tasks_to_save := tasks_to_save b @
                        [\<lparr>ri_unique_id = unique_id t, final_answer = a, ri_full_answers = f\<rparr>],
                      processed_count := processed_count b + 1\<rparr>"
  have notfull: "\<not> mp \<le> processed_count b" using Cons.prems(2) by simp
  show ?case
  proof (cases "processed_count b1 mod 5 = 0")
    case True
    then have "(processed_count b + 1) mod 5 = 0" by (simp add: b1_def)
    then have k4: "k = 4" using k5 klt by presburger
    define b2 where "b2 = b1\<lparr>save_calls := save_calls b1 @ [tasks_to_save b1],
                         output_log := output_log b1 @ tasks_to_save b1,
                         tasks_to_save := []\<rparr>"
    have step: "batch_loop (\<lambda>n. False) mp (p # rest) b = batch_loop (\<lambda>n. False) mp rest b2"
      using True notfull by (simp add: p oc b1_def b2_def Let_def)
    have pre2: "processed_count b2 + int (length rest) \<le> mp"
      "int (length (tasks_to_save b2)) = processed_count b2 mod 5"
      using Cons.prems(2) True by (simp_all add: b2_def b1_def)
    from Cons.IH[OF rest pre2]
    have ih: "map length (save_calls (batch_loop (\<lambda>n. False) mp rest b2))
           = map length (save_calls b2) @ replicate (length rest div 5) 5"
      "length (tasks_to_save (batch_loop (\<lambda>n. False) mp rest b2)) = length rest mod 5"
      by (simp_all add: b2_def)
    have sc2: "map length (save_calls b2) = map length (save_calls b) @ [5]"
      using k4 by (simp add: b2_def b1_def k_def)
    have d: "(k + length (p # rest)) div 5 = Suc (length rest div 5)"
      "(k + length (p # rest)) mod 5 = length rest mod 5"
      using k4 by simp_all
    show ?thesis
      unfolding step k_def[symmetric] d using ih sc2 by simp
  next
    case False
    have step: "batch_loop (\<lambda>n. False) mp (p # rest) b = batch_loop (\<lambda>n. False) mp rest b1"
      using False notfull by (simp add: p oc b1_def Let_def)
    have "(processed_count b + 1) mod 5 \<noteq> 0" using False by (simp add: b1_def)
    then have pm: "(processed_count b + 1) mod 5 = processed_count b mod 5 + 1" by presburger
    have pre1: "processed_count b1 + int (length rest) \<le> mp"
      "int (length (tasks_to_save b1)) = processed_count b1 mod 5"
      using Cons.prems(2) k5 pm by (simp_all add: b1_def k_def)
    from Cons.IH[OF rest pre1]
    have ih: "map length (save_calls (batch_loop (\<lambda>n. False) mp rest b1))
           = map length (save_calls b1) @ replicate ((Suc k + length rest) div 5) 5"
      "length (tasks_to_save (batch_loop (\<lambda>n. False) mp rest b1)) = (Suc k + length rest) mod 5"
      by (simp_all add: b1_def k_def)
    show ?thesis
      unfolding step k_def[symmetric] using ih by (simp add: b1_def)
  qed
qed

lemma process_task_batch_all_returned:
  assumes "all_returned tasks"
  shows "map length (save_calls (fst (process_task_batch (\<lambda>n. False) tasks None)))
           = replicate (length tasks div 5) 5 @ (if length tasks mod 5 = 0 then [] else [length tasks mod 5])"
proof -
  define b0 where "b0 = \<lparr>tasks_to_save = [], processed_count = 0, save_calls = [], output_log = []\<rparr>"
  define b where "b = batch_loop (\<lambda>n. False) (int (length tasks)) tasks b0"
  have "processed_count b0 + int (length tasks) \<le> int (length tasks)"
    "int (length (tasks_to_save b0)) = processed_count b0 mod 5"
    by (simp_all add: b0_def)
  from batch_loop_all_returned[OF assms this]
  have sc: "map length (save_calls b) = replicate (length tasks div 5) 5"
    and ts: "length (tasks_to_save b) = length tasks mod 5"
    by (simp_all add: b_def b0_def)
  show ?thesis
  proof (cases "length tasks mod 5 = 0")
    case True
    with ts have "tasks_to_save b = []" by simp
    then show ?thesis using sc True
      by (simp add: process_task_batch_def b_def b0_def Let_def)
  next
    case False
    with ts have "tasks_to_save b \<noteq> []" by auto
    then show ?thesis using sc ts False
      by (simp add: process_task_batch_def b_def[unfolded b0_def, symmetric] Let_def)
  qed
qed

text \<open>
  Claim C8. The problems are processed one after the other by the loop. When every call of
  \<^verbatim>\<open>process_task\<close> returns, the records are saved in groups of five and the remainder once at
  the end (\<open>process_task_batch_all_returned\<close>); twelve such problems give three save calls
  of 5, 5 and 2 records. The \<^verbatim>\<open>except\<close> branch of the loop body buffers an error record and
  increments the counter of completed problems but does not run the checkpoint test: when
  the fifth of twelve problems raises, the counter passes 5 without a save, the next save is
  made at 10 with ten records, and the batch ends with two save calls of 10 and 2 records.
\<close>

theorem process_task_batch_error_at_fifth:
  "map length (save_calls (fst (process_task_batch (\<lambda>n. False) (raising_at 4 12) None))) = [10, 2]
   \<and> snd (process_task_batch (\<lambda>n. False) (raising_at 4 12) None) = None
   \<and> map length (save_calls (fst (process_task_batch (\<lambda>n. False) (returning 12) None))) = [5, 5, 2]"
  by (simp add: process_task_batch_def raising_at_def returning_def upt_12 on_task_error_def Let_def)

subsection \<open>Round trip of the protocol messages\<close>

lemma round_half_even_of_int: "round_half_even (of_int n) = n"
  by (simp add: round_half_even_def)

lemma round_half_even_lower: "of_int a \<le> y \<Longrightarrow> a \<le> round_half_even y"
proof -
  assume "of_int a \<le> y"
  then have "a \<le> \<lfloor>y\<rfloor>" by (simp add: le_floor_iff)
  then show ?thesis by (simp add: round_half_even_def Let_def)
qed

lemma round_half_even_upper: "y \<le> of_int b \<Longrightarrow> round_half_even y \<le> b"
proof (cases "y = of_int b")
  case True then show ?thesis by (simp add: round_half_even_of_int)
next
  case False
  assume "y \<le> of_int b"
  with False have "y < of_int b" by simp
  then have "\<lfloor>y\<rfloor> < b" by (simp add: floor_less_iff)
  then show ?thesis by (simp add: round_half_even_def Let_def)
qed

lemma round3_grid: "round3 (of_int n / 1000) = of_int n / 1000"
  by (simp add: round3_def round_half_even_of_int)

lemma round3_clamp_idem:
  "round3 (max 0 (min 1 (round3 (max 0 (min 1 x))))) = round3 (max 0 (min 1 x))"
proof -
  define y where "y = max 0 (min 1 x)"
  define n where "n = round_half_even (y * 1000)"
  have y: "0 \<le> y" "y \<le> 1" by (simp_all add: y_def)
  have "of_int 0 \<le> y * 1000" using y by simp
  then have n0: "0 \<le> n" unfolding n_def by (rule round_half_even_lower)
  have "y * 1000 \<le> of_int 1000" using y by simp
  then have n1: "n \<le> 1000" unfolding n_def by (rule round_half_even_upper)
  have r: "round3 y = of_int n / 1000" by (simp add: round3_def n_def)
  have "0 \<le> (of_int n / 1000 :: real)" "(of_int n / 1000 :: real) \<le> 1" using n0 n1 by simp_all
  then have "max 0 (min 1 (of_int n / 1000 :: real)) = of_int n / 1000" by simp
  then show ?thesis unfolding y_def[symmetric] r by (simp add: round3_grid)
qed

lemma round3_cost_idem: "round3 (max 0 (round3 (max 0 c))) = round3 (max 0 c)"
proof -
  define y where "y = max 0 c"
  define n where "n = round_half_even (y * 1000)"
  have "of_int 0 \<le> y * 1000" by (simp add: y_def)
  then have n0: "0 \<le> n" unfolding n_def by (rule round_half_even_lower)
  have r: "round3 y = of_int n / 1000" by (simp add: round3_def n_def)
  have "0 \<le> (of_int n / 1000 :: real)" using n0 by simp
  then have "max 0 (of_int n / 1000 :: real) = of_int n / 1000" by simp
  then show ?thesis unfolding y_def[symmetric] r by (simp add: round3_grid)
qed

lemma Beacon_round_trip_if_task_id:
  "Beacon.task_id b \<noteq> '''' \<Longrightarrow> Beacon_from_dict u1 u2 t1 t2 (Beacon_to_dict b) = b"
  by (simp add: Beacon_from_dict_def Beacon_to_dict_def Beacon_init_def get_default_def)

lemma Beacon_init_task_id: "u \<noteq> '''' \<Longrightarrow> Beacon.task_id (Beacon_init u now s req tid n) \<noteq> ''''"
  by (simp add: Beacon_init_def split: option.splits)

lemma Beacon_from_dict_task_id:
  "u1 \<noteq> '''' \<Longrightarrow> Beacon.task_id (Beacon_from_dict u1 u2 t1 t2 d) \<noteq> ''''"
  by (simp add: Beacon_from_dict_def Beacon_init_def Let_def split: option.splits)

lemma BeaconResponse_round_trip_if_normal:
  assumes "match_score r = round3 (max 0 (min 1 (match_score r)))"
    and "estimate_cost r = round3 (max 0 (estimate_cost r))"
  shows "BeaconResponse_from_dict u1 u2 t1 t2 (BeaconResponse_to_dict r) = r"
  using assms
  by (simp add: BeaconResponse_from_dict_def BeaconResponse_to_dict_def BeaconResponse_init_def
      get_default_def)

lemma BeaconResponse_init_normal:
  "match_score (BeaconResponse_init u now rid tk sc co)
      = round3 (max 0 (min 1 (match_score (BeaconResponse_init u now rid tk sc co))))"
  "estimate_cost (BeaconResponse_init u now rid tk sc co)
      = round3 (max 0 (estimate_cost (BeaconResponse_init u now rid tk sc co)))"
  by (simp_all add: BeaconResponse_init_def round3_clamp_idem round3_cost_idem)

lemma BeaconResponse_from_dict_normal:
  "match_score (BeaconResponse_from_dict v1 v2 s1 s2 rd)
      = round3 (max 0 (min 1 (match_score (BeaconResponse_from_dict v1 v2 s1 s2 rd))))"
  "estimate_cost (BeaconResponse_from_dict v1 v2 s1 s2 rd)
      = round3 (max 0 (estimate_cost (BeaconResponse_from_dict v1 v2 s1 s2 rd)))"
  by (simp_all add: BeaconResponse_from_dict_def BeaconResponse_init_def Let_def
      round3_clamp_idem round3_cost_idem)

lemma round3_one: "round3 1 = 1"
  using round3_grid[of 1000] by simp

text \<open>
  Claim C7. Every beacon that the class builds, by its constructor or by \<open>from_dict\<close>, is
  reproduced in all six fields by \<open>from_dict\<close> of its \<open>to_dict\<close>, whatever fresh
  identifiers and clock readings the decoding draws; so is every beacon response. The
  identifiers drawn by \<^verbatim>\<open>uuid.uuid4()\<close> are non-empty strings. A dictionary without the key
  \<^verbatim>\<open>ttl\<close> decodes to \<open>ttl = 2\<close>, one without \<^verbatim>\<open>match_score\<close> to the score \<open>1.0\<close>.
\<close>

theorem message_round_trip:
  "(u \<noteq> '''' \<longrightarrow>
      Beacon_from_dict u1 u2 t1 t2 (Beacon_to_dict (Beacon_init u now s req tid n))
        = Beacon_init u now s req tid n)
   \<and> (v1 \<noteq> '''' \<longrightarrow>
      Beacon_from_dict u1 u2 t1 t2 (Beacon_to_dict (Beacon_from_dict v1 v2 s1 s2 d))
        = Beacon_from_dict v1 v2 s1 s2 d)
   \<and> BeaconResponse_from_dict u1 u2 t1 t2
        (BeaconResponse_to_dict (BeaconResponse_init u now rid tk sc co))
        = BeaconResponse_init u now rid tk sc co
   \<and> BeaconResponse_from_dict u1 u2 t1 t2
        (BeaconResponse_to_dict (BeaconResponse_from_dict v1 v2 s1 s2 rd))
        = BeaconResponse_from_dict v1 v2 s1 s2 rd
   \<and> (d_ttl d = None \<longrightarrow> ttl (Beacon_from_dict u1 u2 t1 t2 d) = 2)
   \<and> (d_match_score rd = None \<longrightarrow> match_score (BeaconResponse_from_dict u1 u2 t1 t2 rd) = 1)"
proof -
  have a: "u \<noteq> '''' \<longrightarrow>
      Beacon_from_dict u1 u2 t1 t2 (Beacon_to_dict (Beacon_init u now s req tid n))
        = Beacon_init u now s req tid n"
    using Beacon_round_trip_if_task_id Beacon_init_task_id by blast
  have b: "v1 \<noteq> '''' \<longrightarrow>
      Beacon_from_dict u1 u2 t1 t2 (Beacon_to_dict (Beacon_from_dict v1 v2 s1 s2 d))
        = Beacon_from_dict v1 v2 s1 s2 d"
    using Beacon_round_trip_if_task_id Beacon_from_dict_task_id by blast
  have c: "BeaconResponse_from_dict u1 u2 t1 t2
        (BeaconResponse_to_dict (BeaconResponse_init u now rid tk sc co))
        = BeaconResponse_init u now rid tk sc co"
    by (rule BeaconResponse_round_trip_if_normal[OF BeaconResponse_init_normal])
  have d: "BeaconResponse_from_dict u1 u2 t1 t2
        (BeaconResponse_to_dict (BeaconResponse_from_dict v1 v2 s1 s2 rd))
        = BeaconResponse_from_dict v1 v2 s1 s2 rd"
    by (rule BeaconResponse_round_trip_if_normal[OF BeaconResponse_from_dict_normal])
  have e: "d_ttl d = None \<longrightarrow> ttl (Beacon_from_dict u1 u2 t1 t2 d) = 2"
    by (simp add: Beacon_from_dict_def Beacon_init_def get_default_def Let_def)
  have f: "d_match_score rd = None \<longrightarrow> match_score (BeaconResponse_from_dict u1 u2 t1 t2 rd) = 1"
    by (simp add: BeaconResponse_from_dict_def BeaconResponse_init_def get_default_def Let_def round3_one)
  from a b c d e f show ?thesis by blast
qed

theorem message_round_trip_witness:
  "Beacon_from_dict ''x'' ''y'' 7 8
      (Beacon_to_dict (Beacon_init ''id-1'' 100 ''agent-1'' ''math'' None 2))
     = Beacon_init ''id-1'' 100 ''agent-1'' ''math'' None 2
   \<and> ttl (Beacon_from_dict ''x'' ''y'' 7 8
        \<lparr>d_beacon_id = Some ''b'', d_sender = Some ''agent-1'', d_task_id = None,
         d_requirement = Some ''math'', d_ttl = None, d_timestamp = Some 5\<rparr>) = 2
   \<and> match_score (BeaconResponse_from_dict ''x'' ''y'' 7 8
        \<lparr>d_response_id = Some ''r'', d_responder_id = Some ''agent-2'', dr_task_id = Some ''1'',
         d_match_score = None, d_estimate_cost = Some 2, dr_timestamp = Some 5\<rparr>) = 1"
proof -
  let ?d = "\<lparr>d_beacon_id = Some ''b'', d_sender = Some ''agent-1'', d_task_id = None,
         d_requirement = Some ''math'', d_ttl = None, d_timestamp = Some 5\<rparr>"
  let ?rd = "\<lparr>d_response_id = Some ''r'', d_responder_id = Some ''agent-2'', dr_task_id = Some ''1'',
         d_match_score = None, d_estimate_cost = Some 2, dr_timestamp = Some 5\<rparr>"
  have h1: "''id-1'' \<noteq> ''''" by simp
  have h2: "d_ttl ?d = None" by simp
  have h3: "d_match_score ?rd = None" by simp
  from message_round_trip[where u = "''id-1''" and ?u1.0 = "''x''" and ?u2.0 = "''y''"
      and ?t1.0 = 7 and ?t2.0 = 8 and now = 100 and s = "''agent-1''" and req = "''math''"
      and tid = None and n = 2 and d = ?d and rd = ?rd] h1 h2 h3
  show ?thesis by blast
qed

subsection \<open>Decimal rendering of integers is injective\<close>

lemma digit_cases: "d < 10 \<Longrightarrow> d = 0 \<or> d = 1 \<or> d = 2 \<or> d = 3 \<or> d = 4 \<or> d = 5 \<or> d = 6 \<or> d = 7 \<or> d = 8 \<or> d = (9::nat)"
  by arith

lemma digit_char_code: "d < 10 \<Longrightarrow> of_char (digit_char d) = (48 + d :: nat)"
  using digit_cases[of d] by (auto simp: digit_char_def)

lemma digit_char_inj:
  assumes "d < 10" "e < 10" "digit_char d = digit_char e"
  shows "d = e"
proof -
  have "(of_char (digit_char d) :: nat) = of_char (digit_char e)" using assms(3) by (rule arg_cong)
  then have "48 + d = 48 + e"
    unfolding digit_char_code[OF assms(1)] digit_char_code[OF assms(2)] .
  then show ?thesis by simp
qed

lemma digit_char_not_minus:
  assumes "d < 10"
  shows "digit_char d \<noteq> CHR ''-''"
proof
  assume "digit_char d = CHR ''-''"
  then have "(of_char (digit_char d) :: nat) = of_char (CHR ''-'')" by (rule arg_cong)
  then have "48 + d = (45::nat)" unfolding digit_char_code[OF assms] by simp
  then show False by simp
qed

lemma str_nat_small: "n < 10 \<Longrightarrow> str_nat n = [digit_char n]"
  by (simp add: str_nat.simps)

lemma str_nat_big: "\<not> n < 10 \<Longrightarrow> str_nat n = str_nat (n div 10) @ [digit_char (n mod 10)]"
  by (subst str_nat.simps) simp

lemma str_nat_not_Nil: "str_nat n \<noteq> []"
  by (cases "n < 10") (simp_all add: str_nat_small str_nat_big)

lemma str_nat_no_minus: "CHR ''-'' \<notin> set (str_nat n)"
proof (induction n rule: str_nat.induct)
  case (1 n)
  show ?case
  proof (cases "n < 10")
    case True
    then show ?thesis using digit_char_not_minus[of n] by (simp add: str_nat_small)
  next
    case False
    have "n mod 10 < 10" by simp
    then have "digit_char (n mod 10) \<noteq> CHR ''-''" by (rule digit_char_not_minus)
    then show ?thesis using 1[OF False] False by (simp add: str_nat_big)
  qed
qed

lemma str_nat_inj: "str_nat m = str_nat n \<Longrightarrow> m = n"
proof (induction m arbitrary: n rule: str_nat.induct)
  case (1 m)
  show ?case
  proof (cases "m < 10")
    case m: True
    show ?thesis
    proof (cases "n < 10")
      case True
      with m 1(2) show ?thesis by (simp add: str_nat_small digit_char_inj)
    next
      case False
      have "length (str_nat n) \<ge> 2"
        using False str_nat_not_Nil[of "n div 10"]
        by (simp add: str_nat_big Suc_le_eq)
      moreover have "length (str_nat m) = 1" using m by (simp add: str_nat_small)
      ultimately show ?thesis using 1(2) by simp
    qed
  next
    case m: False
    show ?thesis
    proof (cases "n < 10")
      case True
      have "length (str_nat m) \<ge> 2"
        using m str_nat_not_Nil[of "m div 10"]
        by (simp add: str_nat_big Suc_le_eq)
      moreover have "length (str_nat n) = 1" using True by (simp add: str_nat_small)
      ultimately show ?thesis using 1(2) by simp
    next
      case False
      from 1(2) m False have e: "str_nat (m div 10) = str_nat (n div 10)"
        and d: "digit_char (m mod 10) = digit_char (n mod 10)"
        by (simp_all add: str_nat_big)
      from 1(1)[OF m e] have "m div 10 = n div 10" .
      moreover have "m mod 10 = n mod 10"
        using d by (intro digit_char_inj) simp_all
      ultimately show ?thesis by (metis div_mult_mod_eq)
    qed
  qed
qed

lemma str_int_inj: "str_int i = str_int j \<Longrightarrow> i = j"
proof -
  assume e: "str_int i = str_int j"
  have hd_nat: "hd (str_nat n) \<noteq> CHR ''-''" for n
    using str_nat_no_minus[of n] str_nat_not_Nil[of n] by (metis hd_in_set)
  show ?thesis
  proof (cases "i < 0")
    case i: True
    show ?thesis
    proof (cases "j < 0")
      case True
      with i e have "str_nat (nat (- i)) = str_nat (nat (- j))" by (simp add: str_int_def)
      then have "nat (- i) = nat (- j)" by (rule str_nat_inj)
      with i True show ?thesis by simp
    next
      case False
      with i e have "CHR ''-'' # str_nat (nat (- i)) = str_nat (nat j)" by (simp add: str_int_def)
      then have "hd (str_nat (nat j)) = CHR ''-''" by (metis list.sel(1))
      with hd_nat show ?thesis by simp
    qed
  next
    case i: False
    show ?thesis
    proof (cases "j < 0")
      case True
      with i e have "str_nat (nat i) = CHR ''-'' # str_nat (nat (- j))" by (simp add: str_int_def)
      then have "hd (str_nat (nat i)) = CHR ''-''" by (metis list.sel(1))
      with hd_nat show ?thesis by simp
    next
      case False
      with i e have "str_nat (nat i) = str_nat (nat j)" by (simp add: str_int_def)
      then have "nat i = nat j" by (rule str_nat_inj)
      with i False show ?thesis by simp
    qed
  qed
qed

lemma str_int_eq_iff: "str_int i = str_int j \<longleftrightarrow> i = j"
  using str_int_inj by blast

lemma str_int_examples: "str_int 1 = ''1''" "str_int 2 = ''2''" "str_int 12 = ''12''" "str_int (- 3) = ''-3''"
  by (simp_all add: str_int_def str_nat.simps digit_char_def)

subsection \<open>The step dictionary built by the decomposition\<close>

lemma steps_loop_other:
  "\<forall>j < length subs. k \<noteq> str_int (int (i + j) + 1) \<Longrightarrow> steps_loop i subs req st k = st k"
proof (induction subs arbitrary: i st)
  case Nil then show ?case by simp
next
  case (Cons s rest)
  have a: "\<forall>j < length rest. k \<noteq> str_int (int (Suc i + j) + 1)"
  proof (intro allI impI)
    fix j assume "j < length rest"
    then have "Suc j < length (s # rest)" by simp
    with Cons.prems have "k \<noteq> str_int (int (i + Suc j) + 1)" by blast
    then show "k \<noteq> str_int (int (Suc i + j) + 1)" by simp
  qed
  have "k \<noteq> str_int (int (i + 0) + 1)" using Cons.prems by blast
  then have b: "k \<noteq> str_int (int i + 1)" by simp
  show ?case using Cons.IH[OF a] b by simp
qed

lemma steps_loop_lookup:
  "j < length subs \<Longrightarrow> steps_loop i subs req st (str_int (int (i + j) + 1)) = Some [subs ! j, req]"
proof (induction subs arbitrary: i j st)
  case Nil then show ?case by simp
next
  case (Cons s rest)
  show ?case
  proof (cases j)
    case 0
    have "\<forall>j' < length rest. str_int (int (i + 0) + 1) \<noteq> str_int (int (Suc i + j') + 1)"
      by (simp add: str_int_eq_iff)
    from steps_loop_other[OF this]
    show ?thesis using 0 by simp
  next
    case (Suc j')
    with Cons.prems have "j' < length rest" by simp
    from Cons.IH[OF this, of "Suc i"] show ?thesis using Suc by simp
  qed
qed

lemma steps_loop_dom:
  "dom (steps_loop i subs req st) = dom st \<union> (\<lambda>j. str_int (int (i + j) + 1)) ` {0..<length subs}"
proof (induction subs arbitrary: i st)
  case Nil then show ?case by simp
next
  case (Cons s rest)
  have split: "{0..<length (s # rest)} = insert 0 (Suc ` {0..<length rest})"
    by (simp add: image_Suc_atLeastLessThan atLeast0_lessThan_Suc_eq_insert_0)
  have shift: "(\<lambda>j. str_int (int (i + j) + 1)) ` (Suc ` {0..<length rest})
       = (\<lambda>j. str_int (int (Suc i + j) + 1)) ` {0..<length rest}"
    unfolding image_image by simp
  have keys: "(\<lambda>j. str_int (int (i + j) + 1)) ` {0..<length (s # rest)}
      = insert (str_int (int i + 1)) ((\<lambda>j. str_int (int (Suc i + j) + 1)) ` {0..<length rest})"
    unfolding split image_insert shift by simp
  have "dom (steps_loop i (s # rest) req st)
      = dom (steps_loop (Suc i) rest req (st(str_int (int i + 1) \<mapsto> [s, req])))"
    by simp
  also have "\<dots> = dom (st(str_int (int i + 1) \<mapsto> [s, req]))
          \<union> (\<lambda>j. str_int (int (Suc i + j) + 1)) ` {0..<length rest}"
    by (rule Cons.IH)
  also have "\<dots> = dom st \<union> insert (str_int (int i + 1))
                 ((\<lambda>j. str_int (int (Suc i + j) + 1)) ` {0..<length rest})"
    by (simp only: dom_fun_upd option.simps if_False Un_insert_left Un_insert_right)
  finally show ?case unfolding keys .
qed

lemma key_inj: "inj_on (\<lambda>j. str_int (int j + 1)) A"
  by (rule inj_onI) (simp add: str_int_eq_iff)

lemma contiguous_empty: "contiguous Map.empty"
  unfolding contiguous_def by (rule exI[of _ 0]) simp

lemma contiguous_steps_loop: "contiguous (steps_loop 0 subs req Map.empty)"
  unfolding contiguous_def by (rule exI[of _ "length subs"]) (simp add: steps_loop_dom)

lemma len_steps_loop: "len_steps (steps_loop 0 subs req Map.empty) = int (length subs)"
  by (simp add: len_steps_def steps_loop_dom card_image key_inj)

lemma contiguous_lookup:
  assumes "contiguous st" "st (str_int k) = Some v"
  shows "1 \<le> k \<and> k \<le> len_steps st"
proof -
  from assms(1) obtain n where d: "dom st = (\<lambda>j. str_int (int j + 1)) ` {0..<n}"
    unfolding contiguous_def by blast
  have len: "len_steps st = int n" by (simp add: len_steps_def d card_image key_inj)
  from assms(2) have "str_int k \<in> dom st" by blast
  with d obtain j where "j < n" "str_int k = str_int (int j + 1)" by auto
  then have "k = int j + 1" by (simp add: str_int_eq_iff)
  with \<open>j < n\<close> len show ?thesis by simp
qed

subsection \<open>Transitions of the task state machine\<close>

lemma from_dict_fields:
  "subtask_id (from_dict u d) = subtask_id d"
  "steps (from_dict u d) = steps d"
  "previous_results (from_dict u d) = previous_results d"
  "Task.final_result (from_dict u d) = Task.final_result d"
  by (simp_all add: from_dict_def)

lemma decompose_task_cases:
  assumes "decompose_task a u d = Inr t"
  shows "subtask_id t = subtask_id d + 1 \<and> Task.final_result t = Task.final_result d
       \<and> (steps t = steps d \<or> (\<exists>subs. steps t = steps_loop 0 subs ''math'' Map.empty))"
proof -
  from assms obtain m where m: "agent_model a = Some m"
    by (auto simp: decompose_task_def split: option.splits)
  show ?thesis
  proof (cases "extracted m (original_problem d)")
    case None
    with assms m show ?thesis
      by (auto simp: decompose_task_def extract_task_def from_dict_fields)
  next
    case (Some bq)
    obtain bg q where bq: "bq = (bg, q)" by (cases bq)
    show ?thesis
    proof (cases "subtasks m (original_problem d)")
      case None
      with assms m Some bq show ?thesis
        by (auto simp: decompose_task_def extract_task_def generate_task_dag_def from_dict_fields)
    next
      case (Some subs)
      with assms m \<open>extracted m (original_problem d) = Some bq\<close> bq show ?thesis
        by (auto simp: decompose_task_def extract_task_def generate_task_dag_def from_dict_fields)
    qed
  qed
qed

lemma execute_subtask_cases:
  assumes "execute_subtask a u d = Inr t"
  shows "\<exists>instruction rest m.
           steps d (str_int (subtask_id d)) = Some (instruction # rest)
         \<and> agent_model a = Some m
         \<and> subtask_id t = subtask_id d + 1
         \<and> steps t = steps d
         \<and> previous_results t = previous_results d @
              [instruction @ '' Answer: '' @
                 generate m (build_task_description a instruction (join '' '' (previous_results d)))]
         \<and> Task.final_result t =
              (if subtask_id d = len_steps (steps d)
               then generate m (build_task_description a instruction (join '' '' (previous_results d)))
               else Task.final_result d)"
  using assms
  by (auto simp: execute_subtask_def Let_def from_dict_fields
      split: option.splits list.splits if_splits)

lemma execute_task_Dict:
  "execute_task a u (to_dict d) = (if subtask_id d = 0 then decompose_task a u d else execute_subtask a u d)"
  by (simp add: execute_task_def to_dict_def)

lemma execute_task_increments:
  assumes "execute_task a u (to_dict d) = Inr t"
  shows "subtask_id t = subtask_id d + 1"
proof (cases "subtask_id d = 0")
  case True
  with assms have "decompose_task a u d = Inr t" by (simp add: execute_task_Dict)
  from decompose_task_cases[OF this] show ?thesis by simp
next
  case False
  with assms have "execute_subtask a u d = Inr t" by (simp add: execute_task_Dict)
  from execute_subtask_cases[OF this] show ?thesis by blast
qed

lemma len_steps_nonneg: "0 \<le> len_steps st"
  by (simp add: len_steps_def)

lemma task_inv_initial: "task_inv (create_initial_task u uid p)"
  by (simp add: task_inv_def create_initial_task_def contiguous_empty)

lemma task_inv_step:
  assumes inv: "task_inv d" and ex: "execute_task a u (to_dict d) = Inr t"
  shows "task_inv t"
proof (cases "subtask_id d = 0")
  case True
  with ex have "decompose_task a u d = Inr t" by (simp add: execute_task_Dict)
  from decompose_task_cases[OF this]
  have fr: "Task.final_result t = Task.final_result d"
    and st: "steps t = steps d \<or> (\<exists>subs. steps t = steps_loop 0 subs ''math'' Map.empty)"
    by simp_all
  have "Task.final_result d = ''''"
  proof (rule ccontr)
    assume "Task.final_result d \<noteq> ''''"
    with inv have "subtask_id d = len_steps (steps d) + 1" by (simp add: task_inv_def)
    with True len_steps_nonneg[of "steps d"] show False by simp
  qed
  moreover have "contiguous (steps t)"
    using st inv contiguous_steps_loop by (auto simp: task_inv_def)
  ultimately show ?thesis using fr by (simp add: task_inv_def)
next
  case False
  with ex have "execute_subtask a u d = Inr t" by (simp add: execute_task_Dict)
  from execute_subtask_cases[OF this] obtain instruction rest and m :: base_model where
    look: "steps d (str_int (subtask_id d)) = Some (instruction # rest)"
    and sid: "subtask_id t = subtask_id d + 1"
    and st: "steps t = steps d"
    and fr: "Task.final_result t =
              (if subtask_id d = len_steps (steps d)
               then generate m (build_task_description a instruction (join '' '' (previous_results d)))
               else Task.final_result d)"
    by blast
  have c: "contiguous (steps d)" using inv by (simp add: task_inv_def)
  from contiguous_lookup[OF c look] have le: "subtask_id d \<le> len_steps (steps d)" by simp
  show ?thesis
  proof (cases "subtask_id d = len_steps (steps d)")
    case True
    then show ?thesis using c sid st by (simp add: task_inv_def)
  next
    case ne: False
    have "Task.final_result d = ''''"
    proof (rule ccontr)
      assume "Task.final_result d \<noteq> ''''"
      with inv have "subtask_id d = len_steps (steps d) + 1" by (simp add: task_inv_def)
      with le show False by simp
    qed
    then show ?thesis using c st fr ne by (simp add: task_inv_def)
  qed
qed

lemma reachable_task_inv: "reachable t \<Longrightarrow> task_inv t"
  by (induction rule: reachable.induct) (auto intro: task_inv_initial task_inv_step)

lemma decompose_failure:
  assumes m: "agent_model a = Some m"
    and fail: "extracted m p = None \<or> subtasks m p = None"
  shows "\<exists>t. execute_task a u (to_dict (create_initial_task u0 uid p)) = Inr t
       \<and> steps t = Map.empty \<and> subtask_id t = 1 \<and> Task.final_result t = ''''"
  using m fail
  by (auto simp: execute_task_Dict create_initial_task_def decompose_task_def extract_task_def
      generate_task_dag_def from_dict_def Let_def split: option.splits)

lemma run_task_snoc:
  "run_task (xs @ [(a, u)]) d =
     (case run_task xs d of Inl err \<Rightarrow> Inl err | Inr t \<Rightarrow> execute_task a u (to_dict t))"
proof (induction xs arbitrary: d)
  case Nil
  show ?case by (simp split: sum.splits)
next
  case (Cons x xs)
  obtain a' u' where x: "x = (a', u')" by (cases x)
  show ?case using Cons.IH by (simp add: x split: sum.splits)
qed

lemma decompose_success:
  assumes m: "agent_model a = Some m"
    and ex: "extracted m p = Some (bg, q)"
    and subs: "subtasks m p = Some subs"
  shows "\<exists>t. execute_task a u (to_dict (create_initial_task u0 uid p)) = Inr t
       \<and> subtask_id t = 1 \<and> steps t = steps_loop 0 subs ''math'' Map.empty
       \<and> Task.final_result t = '''' \<and> previous_results t = [bg]"
  using m ex subs
  by (simp add: execute_task_Dict create_initial_task_def decompose_task_def extract_task_def
      generate_task_dag_def from_dict_def Let_def)

lemma execute_step:
  assumes st: "steps d = steps_loop 0 subs ''math'' Map.empty"
    and k: "subtask_id d = int k" "1 \<le> k" "k \<le> length subs"
    and m: "agent_model a = Some m"
  shows "execute_task a u (to_dict d) =
           Inr (from_dict u
             (d\<lparr>previous_results := previous_results d @
                   [subs ! (k - 1) @ '' Answer: '' @
                      generate m (build_task_description a (subs ! (k - 1)) (join '' '' (previous_results d)))],
                Task.final_result :=
                   (if k = length subs
                    then generate m (build_task_description a (subs ! (k - 1)) (join '' '' (previous_results d)))
                    else Task.final_result d),
                subtask_id := int k + 1\<rparr>))"
proof -
  have "k - 1 < length subs" using k by simp
  from steps_loop_lookup[OF this, of 0 "''math''" Map.empty]
  have look: "steps d (str_int (int k)) = Some [subs ! (k - 1), ''math'']"
    using k st by (simp add: of_nat_diff)
  have len: "len_steps (steps d) = int (length subs)" by (simp add: st len_steps_loop)
  have nz: "subtask_id d \<noteq> 0" using k by simp
  show ?thesis
    using nz look len m k(1)
    by (simp add: execute_task_Dict execute_subtask_def Let_def)
qed

lemma run_prefix:
  assumes ag: "agents = (a0, u0) # rest"
    and m0: "agent_model a0 = Some m0"
    and ex: "extracted m0 p = Some (bg, q)"
    and subs: "subtasks m0 p = Some subs"
    and len: "length rest = length subs"
    and models: "\<forall>x \<in> set rest. agent_model (fst x) \<noteq> None"
  shows "1 \<le> k \<Longrightarrow> k \<le> length subs \<Longrightarrow>
     \<exists>t. run_task (take k agents) (create_initial_task u uid p) = Inr t
        \<and> subtask_id t = int k \<and> steps t = steps_loop 0 subs ''math'' Map.empty
        \<and> Task.final_result t = ''''"
proof (induction k)
  case 0 then show ?case by simp
next
  case (Suc k)
  show ?case
  proof (cases "k = 0")
    case True
    from decompose_success[OF m0 ex subs, of u0 u uid] obtain t where
      "execute_task a0 u0 (to_dict (create_initial_task u uid p)) = Inr t"
      "subtask_id t = 1" "steps t = steps_loop 0 subs ''math'' Map.empty"
      "Task.final_result t = ''''" by blast
    then show ?thesis using True ag by simp
  next
    case False
    then have k1: "1 \<le> k" by simp
    have kl: "k \<le> length subs" "k < length subs" using Suc.prems by simp_all
    from Suc.IH[OF k1 kl(1)] obtain d where
      run: "run_task (take k agents) (create_initial_task u uid p) = Inr d"
      and sid: "subtask_id d = int k"
      and st: "steps d = steps_loop 0 subs ''math'' Map.empty"
      and fr: "Task.final_result d = ''''" by blast
    have klen: "k < length agents" using kl len ag by simp
    obtain a u' where x: "agents ! k = (a, u')" by (cases "agents ! k")
    have "agents ! k \<in> set rest" using ag k1 klen by (cases k) simp_all
    with models x obtain m where m: "agent_model a = Some m" by fastforce
    have tk: "take (Suc k) agents = take k agents @ [(a, u')]"
      using klen x by (simp add: take_Suc_conv_app_nth)
    have "\<exists>t. execute_task a u' (to_dict d) = Inr t \<and> subtask_id t = int (Suc k)
             \<and> steps t = steps_loop 0 subs ''math'' Map.empty \<and> Task.final_result t = ''''"
      unfolding execute_step[OF st sid k1 kl(1) m, of u']
      using kl(2) fr st by (simp add: from_dict_fields)
    then show ?thesis unfolding tk run_task_snoc run by simp
  qed
qed

lemma run_complete:
  assumes ag: "agents = (a0, u0) # rest"
    and m0: "agent_model a0 = Some m0"
    and ex: "extracted m0 p = Some (bg, q)"
    and subs: "subtasks m0 p = Some subs"
    and len: "length rest = length subs"
    and ne: "subs \<noteq> []"
    and models: "\<forall>x \<in> set rest. agent_model (fst x) \<noteq> None"
  shows "\<exists>d t a u' m.
           run_task (take (length subs) agents) (create_initial_task u uid p) = Inr d
         \<and> agents ! length subs = (a, u') \<and> agent_model a = Some m
         \<and> run_task agents (create_initial_task u uid p) = Inr t
         \<and> subtask_id t = int (length subs) + 1
         \<and> Task.final_result t =
              generate m (build_task_description a (last subs) (join '' '' (previous_results d)))
         \<and> previous_results t = previous_results d @
              [last subs @ '' Answer: '' @
                 generate m (build_task_description a (last subs) (join '' '' (previous_results d)))]"
proof -
  define n where "n = length subs"
  have n1: "1 \<le> n" using ne by (simp add: n_def Suc_le_eq)
  from run_prefix[OF ag m0 ex subs len models n1, of u uid] obtain d where
    run: "run_task (take n agents) (create_initial_task u uid p) = Inr d"
    and sid: "subtask_id d = int n"
    and st: "steps d = steps_loop 0 subs ''math'' Map.empty"
    by (auto simp: n_def)
  have nlen: "n < length agents" using len ag by (simp add: n_def)
  obtain a u' where x: "agents ! n = (a, u')" by (cases "agents ! n")
  have "agents ! n \<in> set rest" using ag n1 nlen by (cases n) simp_all
  with models x obtain m where m: "agent_model a = Some m" by fastforce
  have "take (Suc n) agents = take n agents @ [(a, u')]"
    using nlen x by (simp add: take_Suc_conv_app_nth)
  moreover have "take (Suc n) agents = agents" using len ag by (simp add: n_def)
  ultimately have tk: "agents = take n agents @ [(a, u')]" by simp
  have lastsub: "subs ! (length subs - Suc 0) = last subs" using ne by (simp add: last_conv_nth)
  have le: "n \<le> length subs" by (simp add: n_def)
  have "run_task agents (create_initial_task u uid p) = execute_task a u' (to_dict d)"
    by (subst tk) (simp add: run_task_snoc run)
  also note execute_step[OF st sid n1 le m, of u']
  finally have "run_task agents (create_initial_task u uid p) =
      Inr (from_dict u'
             (d\<lparr>previous_results := previous_results d @
                   [last subs @ '' Answer: '' @
                      generate m (build_task_description a (last subs) (join '' '' (previous_results d)))],
                Task.final_result :=
                   generate m (build_task_description a (last subs) (join '' '' (previous_results d))),
                subtask_id := int n + 1\<rparr>))"
    by (simp add: lastsub n_def)
  then show ?thesis using run x m unfolding n_def[symmetric]
    by (simp add: from_dict_fields)
qed

text \<open>
  Claim C1 fails as stated. An agent whose decomposer reports failure advances an initial
  task to \<open>subtask_id = 1\<close> with no steps, so that \<open>subtask_id = len(steps) + 1\<close> holds
  while the final result is still empty.
\<close>

theorem task_invariant_counterexample:
  "execute_task
      \<lparr>agent_id = ''agent-1'', system_prompt = ''sys'',
       agent_model = Some \<lparr>generate = (\<lambda>p. ''42''), extracted = (\<lambda>p. None), subtasks = (\<lambda>p. None)\<rparr>\<rparr>
      ''u'' (to_dict (create_initial_task ''t-1'' ''user-1'' ''What is 6 times 7?''))
     = Inr \<lparr>Task.task_id = ''t-1'', description = ''What is 6 times 7?'', requirements = [],
            subtask_id = 1, steps = Map.empty, previous_results = [],
            original_problem = ''What is 6 times 7?'', Task.final_result = '''',
            Task.user_id = ''user-1''\<rparr>
   \<and> \<not> (Task.final_result
           \<lparr>Task.task_id = ''t-1'', description = ''What is 6 times 7?'', requirements = [],
            subtask_id = 1, steps = Map.empty, previous_results = [],
            original_problem = ''What is 6 times 7?'', Task.final_result = '''',
            Task.user_id = ''user-1''\<rparr> \<noteq> ''''
         \<longleftrightarrow>
         subtask_id
           \<lparr>Task.task_id = ''t-1'', description = ''What is 6 times 7?'', requirements = [],
            subtask_id = 1, steps = Map.empty, previous_results = [],
            original_problem = ''What is 6 times 7?'', Task.final_result = '''',
            Task.user_id = ''user-1''\<rparr>
         = len_steps (steps
           \<lparr>Task.task_id = ''t-1'', description = ''What is 6 times 7?'', requirements = [],
            subtask_id = 1, steps = Map.empty, previous_results = [],
            original_problem = ''What is 6 times 7?'', Task.final_result = '''',
            Task.user_id = ''user-1''\<rparr>) + 1)"
  by (simp add: execute_task_Dict create_initial_task_def decompose_task_def extract_task_def
      from_dict_def Let_def len_steps_def)

text \<open>
  Claim C1, amended. Every decompose or execute transition that returns increases
  \<open>subtask_id\<close> by exactly 1. In every task that the system can hold (an initial task of a
  user and whatever transitions return from it), a non-empty final result implies
  \<open>subtask_id = len(steps) + 1\<close>. The converse does not hold: when the Decomposer or the
  DAGGenerator reports failure, the transition still returns, the steps stay empty,
  \<open>subtask_id\<close> becomes \<open>1 = len(steps) + 1\<close> and the final result is still empty.
\<close>

theorem task_transition_invariant:
  "(execute_task a u (to_dict d) = Inr t \<longrightarrow> subtask_id t = subtask_id d + 1)
   \<and> (reachable t \<longrightarrow> (Task.final_result t \<noteq> '''' \<longrightarrow> subtask_id t = len_steps (steps t) + 1))
   \<and> (agent_model a = Some m \<and> (extracted m p = None \<or> subtasks m p = None) \<longrightarrow>
        (\<exists>t'. execute_task a u (to_dict (create_initial_task u0 uid p)) = Inr t'
           \<and> steps t' = Map.empty \<and> subtask_id t' = 1 \<and> Task.final_result t' = ''''))"
proof -
  have 1: "execute_task a u (to_dict d) = Inr t \<longrightarrow> subtask_id t = subtask_id d + 1"
    using execute_task_increments by blast
  have 2: "reachable t \<longrightarrow> (Task.final_result t \<noteq> '''' \<longrightarrow> subtask_id t = len_steps (steps t) + 1)"
    using reachable_task_inv[of t] by (simp add: task_inv_def)
  have 3: "agent_model a = Some m \<and> (extracted m p = None \<or> subtasks m p = None) \<longrightarrow>
        (\<exists>t'. execute_task a u (to_dict (create_initial_task u0 uid p)) = Inr t'
           \<and> steps t' = Map.empty \<and> subtask_id t' = 1 \<and> Task.final_result t' = '''')"
    using decompose_failure[of a m p u u0 uid] by blast
  from 1 2 3 show ?thesis by blast
qed

theorem task_transition_invariant_witness:
  "\<exists>t'. execute_task
      \<lparr>agent_id = ''agent-1'', system_prompt = ''sys'',
       agent_model = Some \<lparr>generate = (\<lambda>p. ''42''), extracted = (\<lambda>p. Some (''bg'', ''q'')),
                           subtasks = (\<lambda>p. None)\<rparr>\<rparr>
      ''u'' (to_dict (create_initial_task ''t-1'' ''user-1'' ''What is 6 times 7?'')) = Inr t'
     \<and> steps t' = Map.empty \<and> subtask_id t' = 1 \<and> Task.final_result t' = ''''"
proof -
  let ?m = "\<lparr>generate = (\<lambda>p. ''42''), extracted = (\<lambda>p. Some (''bg'', ''q'')),
             subtasks = (\<lambda>p::string. None :: string list option)\<rparr>"
  let ?a = "\<lparr>agent_id = ''agent-1'', system_prompt = ''sys'', agent_model = Some ?m\<rparr>"
  have h: "agent_model ?a = Some ?m
     \<and> (extracted ?m ''What is 6 times 7?'' = None \<or> subtasks ?m ''What is 6 times 7?'' = None)"
    by simp
  from task_transition_invariant[where a = ?a and m = ?m and p = "''What is 6 times 7?''"
      and u = "''u''" and ?u0.0 = "''t-1''" and uid = "''user-1''"] h
  show ?thesis by blast
qed

text \<open>
  Claim C2 fails as stated. A decomposition that succeeds with an empty list of subtasks
  (\<open>N = 0\<close>) reaches \<open>subtask_id = N + 1\<close> after its single transition, and the final
  result is empty.
\<close>

theorem task_lifecycle_counterexample:
  "run_task
      [(\<lparr>agent_id = ''agent-1'', system_prompt = ''sys'',
         agent_model = Some \<lparr>generate = (\<lambda>p. ''42''), extracted = (\<lambda>p. Some (''bg'', ''q'')),
                             subtasks = (\<lambda>p. Some [])\<rparr>\<rparr>, ''u'')]
      (create_initial_task ''t-1'' ''user-1'' ''What is 6 times 7?'')
     = Inr \<lparr>Task.task_id = ''t-1'', description = ''What is 6 times 7?'', requirements = [],
            subtask_id = 0 + 1, steps = Map.empty, previous_results = [''bg''],
            original_problem = ''What is 6 times 7?'', Task.final_result = '''',
            Task.user_id = ''user-1''\<rparr>"
  by (simp add: execute_task_Dict create_initial_task_def decompose_task_def extract_task_def
      generate_task_dag_def from_dict_def Let_def)

text \<open>
  Claim C2, amended. Take an initial task whose decomposition succeeds and yields
  \<open>N \<ge> 1\<close> steps, and \<open>N + 1\<close> transitions, each run by an agent that has a base model.
  Every transition returns. After \<open>k \<le> N\<close> transitions \<open>subtask_id = k\<close> and the final
  result is the empty string. The transition number \<open>N + 1\<close> executes step \<open>N\<close>: it reaches
  \<open>subtask_id = N + 1\<close>, stores the generator's result in the final result (which is
  non-empty exactly when that result is) and appends the instruction, \<open>" Answer: "\<close> and the
  result to the previous results. For \<open>N = 0\<close> the single transition reaches
  \<open>subtask_id = 1\<close> with an empty final result.
\<close>

theorem task_lifecycle:
  assumes "agents = (a0, u0) # rest"
    and "agent_model a0 = Some m0"
    and "extracted m0 p = Some (bg, q)"
    and "subtasks m0 p = Some subs"
    and "length rest = length subs"
    and "subs \<noteq> []"
    and "\<forall>x \<in> set rest. agent_model (fst x) \<noteq> None"
  shows "(\<forall>k \<le> length subs.
            \<exists>t. run_task (take k agents) (create_initial_task u uid p) = Inr t
               \<and> subtask_id t = int k \<and> Task.final_result t = '''')
       \<and> (\<exists>d t a u' m.
             run_task (take (length subs) agents) (create_initial_task u uid p) = Inr d
           \<and> agents ! length subs = (a, u') \<and> agent_model a = Some m
           \<and> run_task agents (create_initial_task u uid p) = Inr t
           \<and> subtask_id t = int (length subs) + 1
           \<and> Task.final_result t =
                generate m (build_task_description a (last subs) (join '' '' (previous_results d)))
           \<and> previous_results t = previous_results d @
                [last subs @ '' Answer: '' @
                   generate m (build_task_description a (last subs) (join '' '' (previous_results d)))])"
proof -
  have "\<exists>t. run_task (take k agents) (create_initial_task u uid p) = Inr t
               \<and> subtask_id t = int k \<and> Task.final_result t = ''''"
    if k: "k \<le> length subs" for k
  proof (cases "k = 0")
    case True
    then show ?thesis by (simp add: create_initial_task_def)
  next
    case False
    then have "1 \<le> k" by simp
    from run_prefix[OF assms(1-5) assms(7) this k, of u uid] show ?thesis by blast
  qed
  then show ?thesis using run_complete[OF assms, of u uid] by blast
qed

theorem task_lifecycle_witness:
  "\<exists>t. run_task
      [(\<lparr>agent_id = ''agent-1'', system_prompt = ''sys'',
         agent_model = Some \<lparr>generate = (\<lambda>p. ''42''), extracted = (\<lambda>p. Some (''bg'', ''q'')),
                             subtasks = (\<lambda>p. Some [''Q1'', ''Q2''])\<rparr>\<rparr>, ''u1''),
       (\<lparr>agent_id = ''agent-1'', system_prompt = ''sys'',
         agent_model = Some \<lparr>generate = (\<lambda>p. ''42''), extracted = (\<lambda>p. Some (''bg'', ''q'')),
                             subtasks = (\<lambda>p. Some [''Q1'', ''Q2''])\<rparr>\<rparr>, ''u2''),
       (\<lparr>agent_id = ''agent-1'', system_prompt = ''sys'',
         agent_model = Some \<lparr>generate = (\<lambda>p. ''42''), extracted = (\<lambda>p. Some (''bg'', ''q'')),
                             subtasks = (\<lambda>p. Some [''Q1'', ''Q2''])\<rparr>\<rparr>, ''u3'')]
      (create_initial_task ''t-1'' ''user-1'' ''What is 6 times 7?'') = Inr t
     \<and> subtask_id t = 3 \<and> Task.final_result t = ''42''"
proof -
  define m0 :: base_model where
    "m0 = \<lparr>generate = (\<lambda>p. ''42''), extracted = (\<lambda>p. Some (''bg'', ''q'')),
           subtasks = (\<lambda>p. Some [''Q1'', ''Q2''])\<rparr>"
  define a0 :: agent where
    "a0 = \<lparr>agent_id = ''agent-1'', system_prompt = ''sys'', agent_model = Some m0\<rparr>"
  define rest where "rest = [(a0, ''u2''), (a0, ''u3'')]"
  define agents where "agents = (a0, ''u1'') # rest"
  define subs where "subs = [''Q1'', ''Q2'']"
  define d0 where "d0 = create_initial_task ''t-1'' ''user-1'' ''What is 6 times 7?''"
  have h1: "agents = (a0, ''u1'') # rest" by (simp add: agents_def)
  have h2: "agent_model a0 = Some m0" by (simp add: a0_def)
  have h3: "extracted m0 ''What is 6 times 7?'' = Some (''bg'', ''q'')" by (simp add: m0_def)
  have h4: "subtasks m0 ''What is 6 times 7?'' = Some subs" by (simp add: m0_def subs_def)
  have h5: "length rest = length subs" by (simp add: rest_def subs_def)
  have h6: "subs \<noteq> []" by (simp add: subs_def)
  have h7: "\<forall>x \<in> set rest. agent_model (fst x) \<noteq> None" by (simp add: rest_def a0_def)
  from task_lifecycle[OF h1 h2 h3 h4 h5 h6 h7, of "''t-1''" "''user-1''"]
  have "\<exists>d t a u' m.
             run_task (take (length subs) agents) d0 = Inr d
           \<and> agents ! length subs = (a, u') \<and> agent_model a = Some m
           \<and> run_task agents d0 = Inr t
           \<and> subtask_id t = int (length subs) + 1
           \<and> Task.final_result t =
                generate m (build_task_description a (last subs) (join '' '' (previous_results d)))
           \<and> previous_results t = previous_results d @
                [last subs @ '' Answer: '' @
                   generate m (build_task_description a (last subs) (join '' '' (previous_results d)))]"
    unfolding d0_def by (rule conjunct2)
  then obtain d t and a :: agent and u' and m :: base_model where
    "run_task (take (length subs) agents) d0 = Inr d"
    and n: "agents ! length subs = (a, u')"
    and m: "agent_model a = Some m"
    and r: "run_task agents d0 = Inr t"
    and s: "subtask_id t = int (length subs) + 1"
    and f: "Task.final_result t =
              generate m (build_task_description a (last subs) (join '' '' (previous_results d)))"
    and "previous_results t = previous_results d @
                [last subs @ '' Answer: '' @
                   generate m (build_task_description a (last subs) (join '' '' (previous_results d)))]"
    by (elim exE conjE) (rule that)
  from n have "a = a0" by (simp add: agents_def rest_def subs_def)
  with m h2 have "m = m0" by simp
  with f have "Task.final_result t = ''42''" by (simp add: m0_def)
  moreover from s have "subtask_id t = 3" by (simp add: subs_def)
  ultimately have "run_task agents d0 = Inr t \<and> subtask_id t = 3 \<and> Task.final_result t = ''42''"
    using r by simp
  then show ?thesis
    unfolding agents_def rest_def a0_def m0_def d0_def by blast
qed

subsection \<open>The gate of the agent coordinator\<close>

lemma active_append: "active (xs @ ys) = active xs + active ys"
  by (induction xs rule: active.induct) simp_all

lemma quiet_active: "quiet evs \<Longrightarrow> active evs = 0"
  by (induction evs rule: active.induct) (simp_all add: quiet_def)

lemma quiet_take: "quiet evs \<Longrightarrow> quiet (take n evs)"
  unfolding quiet_def list_all_iff by (meson in_set_takeD)

lemma quiet_not_executes: "quiet evs \<Longrightarrow> \<not> executes evs"
  by (auto simp: quiet_def executes_def list_all_iff)

lemma bracketed_quiet: "quiet evs \<Longrightarrow> bracketed evs"
  by (simp add: bracketed_def quiet_active quiet_take)

lemma bracketed_exec:
  assumes "quiet evs"
  shows "bracketed (ExecBegin t # ExecEnd # evs)"
proof -
  have "0 \<le> active (take n (ExecBegin t # ExecEnd # evs))
      \<and> active (take n (ExecBegin t # ExecEnd # evs)) \<le> 1" for n
  proof (cases n)
    case 0 then show ?thesis by simp
  next
    case (Suc k)
    show ?thesis
    proof (cases k)
      case 0 with Suc show ?thesis by simp
    next
      case (Suc j)
      with \<open>n = Suc k\<close> show ?thesis using quiet_active[OF quiet_take[OF assms, of j]] by simp
    qed
  qed
  then show ?thesis using quiet_active[OF assms] by (simp add: bracketed_def)
qed

lemma bracketed_append:
  assumes "bracketed xs" "bracketed ys"
  shows "bracketed (xs @ ys)"
proof -
  have "0 \<le> active (take n (xs @ ys)) \<and> active (take n (xs @ ys)) \<le> 1" for n
  proof (cases "n \<le> length xs")
    case True
    then show ?thesis using assms(1) by (simp add: bracketed_def)
  next
    case False
    then have "take n (xs @ ys) = xs @ take (n - length xs) ys" by simp
    then show ?thesis using assms by (simp add: bracketed_def active_append)
  qed
  then show ?thesis using assms by (simp add: bracketed_def active_append)
qed

lemma quiet_assign: "assign_task self_id cands task = Inr evs \<Longrightarrow> quiet evs"
  by (auto simp: assign_task_def quiet_def list_all_iff
      split: py_task.splits option.splits list.splits)

lemma on_exception_events:
  "snd (on_exception it err g evs) = evs @ Caught err # (if running_in_handler it then [Logged err] else [])"
  by (simp add: on_exception_def)

lemma on_exception_gate:
  "fst (on_exception it err g evs) =
     (if running_in_handler it then g\<lparr>beacon_enabled := True, first_task_received := False\<rparr> else g)"
  by (simp add: on_exception_def)

lemma body_events_shape:
  "quiet (snd (listen_tasks_body a it g))
   \<or> (\<exists>t evs. snd (listen_tasks_body a it g) = ExecBegin t # ExecEnd # evs \<and> quiet evs)"
proof (cases "incoming it")
  case (Inl err)
  then show ?thesis
    by (simp add: listen_tasks_body_def on_exception_events quiet_def)
next
  case (Inr msg)
  show ?thesis
  proof (cases msg)
    case None
    with Inr show ?thesis by (simp add: listen_tasks_body_def quiet_def)
  next
    case (Some st)
    obtain sender_id task where st: "st = (sender_id, task)" by (cases st)
    show ?thesis
    proof (cases "first_task_received g")
      case True
      show ?thesis
      proof (cases "assign_task (agent_id a) (discovered it) task")
        case (Inl err)
        with Inr Some st True show ?thesis
          by (simp add: listen_tasks_body_def on_exception_events quiet_def)
      next
        case r: (Inr evs)
        from quiet_assign[OF r] have "quiet (AssignCalled task # evs)" by (simp add: quiet_def)
        with Inr Some st True r show ?thesis by (simp add: listen_tasks_body_def)
      qed
    next
      case False
      show ?thesis
      proof (cases "execute_task a (fresh_id it) task")
        case (Inl err)
        with Inr Some st False show ?thesis
          by (simp add: listen_tasks_body_def on_exception_events quiet_def Let_def)
      next
        case ex: (Inr new_task)
        show ?thesis
        proof (cases "subtask_id new_task = len_steps (steps new_task) + 1")
          case True
          with Inr Some st False ex show ?thesis
            by (simp add: listen_tasks_body_def quiet_def Let_def)
        next
          case nt: False
          show ?thesis
          proof (cases "assign_task (agent_id a) (discovered it) (Obj new_task)")
            case (Inl err)
            with Inr Some st False ex nt show ?thesis
              by (simp add: listen_tasks_body_def on_exception_events quiet_def Let_def)
          next
            case r: (Inr evs)
            from quiet_assign[OF r] have "quiet (AssignCalled (Obj new_task) # evs)"
              by (simp add: quiet_def)
            with Inr Some st False ex nt r show ?thesis
              by (simp add: listen_tasks_body_def Let_def)
          qed
        qed
      qed
    qed
  qed
qed

lemma body_bracketed: "bracketed (snd (listen_tasks_body a it g))"
  using body_events_shape[of a it g] bracketed_quiet bracketed_exec by auto

lemma listen_tasks_bracketed: "bracketed (snd (listen_tasks a its g))"
proof (induction its arbitrary: g)
  case Nil
  show ?case by (simp add: bracketed_def)
next
  case (Cons it rest)
  show ?case
  proof (cases "running_at_test it")
    case False
    then show ?thesis by (simp add: bracketed_def)
  next
    case True
    obtain g1 evs where b: "listen_tasks_body a it g = (g1, evs)"
      by (cases "listen_tasks_body a it g")
    obtain g2 evs' where r: "listen_tasks a rest g1 = (g2, evs')"
      by (cases "listen_tasks a rest g1")
    have "bracketed evs" using body_bracketed[of a it g] b by simp
    moreover have "bracketed evs'" using Cons.IH[of g1] r by simp
    ultimately have "bracketed (evs @ evs')" by (rule bracketed_append)
    then show ?thesis using True b r by simp
  qed
qed

lemma busy_relays:
  assumes "first_task_received g" "incoming it = Inr (Some (sender_id, task))"
  shows "\<not> executes (snd (listen_tasks_body a it g))
       \<and> (\<exists>rest. snd (listen_tasks_body a it g) = AssignCalled task # rest)"
proof (cases "assign_task (agent_id a) (discovered it) task")
  case (Inl err)
  with assms show ?thesis
    by (simp add: listen_tasks_body_def on_exception_events executes_def)
next
  case (Inr evs)
  from quiet_assign[OF Inr] have "\<not> executes evs" by (rule quiet_not_executes)
  with assms Inr show ?thesis
    by (auto simp: listen_tasks_body_def executes_def)
qed

lemma caught_resets_gate:
  assumes run: "running_in_handler it" and c: "Caught err \<in> set (snd (listen_tasks_body a it g))"
  shows "idle (fst (listen_tasks_body a it g))"
proof -
  have no_caught: "assign_task self_id cands task = Inr evs \<Longrightarrow> Caught err \<notin> set evs"
    for self_id cands task evs
    by (auto simp: assign_task_def split: py_task.splits option.splits list.splits)
  show ?thesis
    using run c
    by (auto simp: listen_tasks_body_def on_exception_def idle_def Let_def
        dest: no_caught split: sum.splits option.splits if_splits)
qed

lemma idle_stays_idle:
  assumes "running_in_handler it" "idle g"
  shows "idle (fst (listen_tasks_body a it g))"
  using assms
  by (auto simp: listen_tasks_body_def on_exception_def idle_def Let_def
      split: sum.splits option.splits if_splits)

text \<open>
  Claim C6 fails as stated. The \<^verbatim>\<open>except\<close> branch resets the gate only under
  \<^verbatim>\<open>if self.running\<close>. An agent in test mode (no base model) that receives an initial task
  after \<^verbatim>\<open>stop\<close> has cleared the flag raises in the transition, and the gate stays BUSY.
\<close>

theorem gate_exclusion_counterexample:
  "listen_tasks_body
      \<lparr>agent_id = ''agent-1'', system_prompt = ''sys'', agent_model = None\<rparr>
      \<lparr>running_at_test = True, running_in_handler = False,
       incoming = Inr (Some (''user-1'', to_dict (create_initial_task ''t-1'' ''user-1'' ''p''))),
       fresh_id = ''u'', discovered = []\<rparr>
      initial_gate
     = (\<lparr>first_task_received = True, beacon_enabled = False\<rparr>,
        [ExecBegin (to_dict (create_initial_task ''t-1'' ''user-1'' ''p'')), ExecEnd,
         Caught (AttributeError ''extract_task'')])
   \<and> \<not> idle \<lparr>first_task_received = True, beacon_enabled = False\<rparr>"
  by (simp add: listen_tasks_body_def initial_gate_def on_exception_def execute_task_def to_dict_def
      create_initial_task_def decompose_task_def idle_def Let_def)

text \<open>
  Claim C6, amended. While the gate of a node is BUSY, a task that is received is handed to
  \<^verbatim>\<open>assign_task\<close> and is not executed locally. The listener runs every local execution to
  its end before it receives the next task, so at no instant more than one local execution
  is active on the node. An exception during a transition returns the gate to IDLE when
  the runner is still running at that moment, and every iteration that starts IDLE then
  ends IDLE; after \<^verbatim>\<open>stop\<close> the \<^verbatim>\<open>except\<close> branch leaves the gate as it is.
\<close>

theorem gate_exclusion:
  "(first_task_received g \<and> incoming it = Inr (Some (sender_id, task)) \<longrightarrow>
       \<not> executes (snd (listen_tasks_body a it g))
     \<and> (\<exists>rest. snd (listen_tasks_body a it g) = AssignCalled task # rest))
   \<and> (\<forall>n. 0 \<le> active (take n (snd (listen_tasks a its g)))
          \<and> active (take n (snd (listen_tasks a its g))) \<le> 1)
   \<and> (running_in_handler it \<and> Caught err \<in> set (snd (listen_tasks_body a it g)) \<longrightarrow>
        idle (fst (listen_tasks_body a it g)))
   \<and> (running_in_handler it \<and> idle g \<longrightarrow> idle (fst (listen_tasks_body a it g)))"
proof -
  have 1: "first_task_received g \<and> incoming it = Inr (Some (sender_id, task)) \<longrightarrow>
       \<not> executes (snd (listen_tasks_body a it g))
     \<and> (\<exists>rest. snd (listen_tasks_body a it g) = AssignCalled task # rest)"
    using busy_relays[of g it sender_id task a] by blast
  have 2: "\<forall>n. 0 \<le> active (take n (snd (listen_tasks a its g)))
          \<and> active (take n (snd (listen_tasks a its g))) \<le> 1"
    using listen_tasks_bracketed[of a its g] by (simp add: bracketed_def)
  have 3: "running_in_handler it \<and> Caught err \<in> set (snd (listen_tasks_body a it g)) \<longrightarrow>
        idle (fst (listen_tasks_body a it g))"
    using caught_resets_gate[of it err a g] by blast
  have 4: "running_in_handler it \<and> idle g \<longrightarrow> idle (fst (listen_tasks_body a it g))"
    using idle_stays_idle[of it g a] by blast
  from 1 2 3 4 show ?thesis by blast
qed

theorem gate_exclusion_witness:
  "\<not> executes (snd (listen_tasks_body
        \<lparr>agent_id = ''agent-1'', system_prompt = ''sys'', agent_model = None\<rparr>
        \<lparr>running_at_test = True, running_in_handler = True,
         incoming = Inr (Some (''agent-2'', to_dict (create_initial_task ''t-1'' ''user-1'' ''p''))),
         fresh_id = ''u'', discovered = []\<rparr>
        \<lparr>first_task_received = True, beacon_enabled = False\<rparr>))
   \<and> idle (fst (listen_tasks_body
        \<lparr>agent_id = ''agent-1'', system_prompt = ''sys'', agent_model = None\<rparr>
        \<lparr>running_at_test = True, running_in_handler = True,
         incoming = Inr (Some (''agent-2'', to_dict (create_initial_task ''t-1'' ''user-1'' ''p''))),
         fresh_id = ''u'', discovered = []\<rparr>
        \<lparr>first_task_received = True, beacon_enabled = False\<rparr>))"
proof -
  define a0 :: agent where "a0 = \<lparr>agent_id = ''agent-1'', system_prompt = ''sys'', agent_model = None\<rparr>"
  define task0 where "task0 = to_dict (create_initial_task ''t-1'' ''user-1'' ''p'')"
  define it0 :: iteration where
    "it0 = \<lparr>running_at_test = True, running_in_handler = True,
            incoming = Inr (Some (''agent-2'', task0)), fresh_id = ''u'', discovered = []\<rparr>"
  define g0 :: gate where "g0 = \<lparr>first_task_received = True, beacon_enabled = False\<rparr>"
  have h1: "first_task_received g0 \<and> incoming it0 = Inr (Some (''agent-2'', task0))"
    by (simp add: g0_def it0_def)
  have h2: "running_in_handler it0
       \<and> Caught (AttributeError ''subtask_id'') \<in> set (snd (listen_tasks_body a0 it0 g0))"
    by (simp add: it0_def g0_def task0_def a0_def listen_tasks_body_def assign_task_def
        to_dict_def on_exception_def)
  from gate_exclusion[of g0 it0 "''agent-2''" task0 a0 "[]" "AttributeError ''subtask_id''"] h1 h2
  have "\<not> executes (snd (listen_tasks_body a0 it0 g0)) \<and> idle (fst (listen_tasks_body a0 it0 g0))"
    by blast
  then show ?thesis unfolding a0_def it0_def g0_def task0_def .
qed

subsection \<open>Capability matching\<close>

lemma room_simps [simp]:
  "room [] = 0"
  "room ((alo, ahi, blo, bhi) # queue) = min (ahi - alo) (bhi - blo) + room queue"
  "room (q1 @ q2) = room q1 + room q2"
  by (simp_all add: room_def)

lemma total_simps [simp]:
  "total [] = 0"
  "total (blocks @ [(i, j, k)]) = total blocks + k"
  by (simp_all add: total_def)

lemma matching_blocks_loop_total:
  "total (matching_blocks_loop a b queue blocks) \<le> total blocks + room queue"
proof (induction a b queue blocks rule: matching_blocks_loop.induct)
  case (1 a b blocks)
  show ?case by (simp add: matching_blocks_loop.simps)
next
  case (2 a b alo ahi blo bhi queue blocks)
  obtain i j k where f: "find_longest_match a b alo ahi blo bhi = (i, j, k)"
    by (cases "find_longest_match a b alo ahi blo bhi")
  show ?case
  proof (cases "k = 0")
    case True
    with 2(1)[of i "(j, k)" j k] f show ?thesis
      by (simp add: matching_blocks_loop.simps)
  next
    case False
    then have kpos: "0 < k" by simp
    from find_longest_match_bounds[OF f kpos]
    have b: "alo \<le> i" "i + k \<le> ahi" "blo \<le> j" "j + k \<le> bhi" by simp_all
    define q where "q = (if i + k < ahi \<and> j + k < bhi then [(i + k, ahi, j + k, bhi)] else [])
              @ (if alo < i \<and> blo < j then [(alo, i, blo, j)] else []) @ queue"
    have ih: "total (matching_blocks_loop a b q (blocks @ [(i, j, k)]))
                \<le> total (blocks @ [(i, j, k)]) + room q"
      unfolding q_def using 2(2)[of i "(j, k)" j k] f False by simp
    have r1: "room (if i + k < ahi \<and> j + k < bhi then [(i + k, ahi, j + k, bhi)] else [])
                \<le> min (ahi - (i + k)) (bhi - (j + k))" by simp
    have r2: "room (if alo < i \<and> blo < j then [(alo, i, blo, j)] else [])
                \<le> min (i - alo) (j - blo)" by simp
    have "k + (min (ahi - (i + k)) (bhi - (j + k)) + min (i - alo) (j - blo))
            \<le> min (ahi - alo) (bhi - blo)" using b by linarith
    with r1 r2 have "k + room q \<le> min (ahi - alo) (bhi - blo) + room queue"
      unfolding q_def room_simps(3) by linarith
    with ih have le: "total (matching_blocks_loop a b q (blocks @ [(i, j, k)]))
                \<le> total blocks + (min (ahi - alo) (bhi - blo) + room queue)" by simp
    have "matching_blocks_loop a b ((alo, ahi, blo, bhi) # queue) blocks
            = matching_blocks_loop a b q (blocks @ [(i, j, k)])"
      unfolding q_def using f False by (simp add: matching_blocks_loop.simps)
    with le show ?thesis by simp
  qed
qed

lemma matches_le: "matches a b \<le> min (length a) (length b)"
  using matching_blocks_loop_total[of a b "[(0, length a, 0, length b)]" "[]"]
  by (simp add: matches_def total_def)

lemma ratio_range: "0 \<le> ratio a b \<and> ratio a b \<le> 1"
proof (cases "length a + length b = 0")
  case True then show ?thesis by (simp add: ratio_def)
next
  case False
  have "2 * matches a b \<le> length a + length b" using matches_le[of a b] by simp
  then have "2 * real (matches a b) \<le> real (length a + length b)"
    by (metis of_nat_le_iff of_nat_mult of_nat_numeral)
  moreover have "0 < real (length a + length b)" using False by (simp del: of_nat_add)
  ultimately have "2 * real (matches a b) / real (length a + length b) \<le> 1"
    by (simp only: divide_le_eq_1_pos)
  moreover have "0 \<le> 2 * real (matches a b) / real (length a + length b)" by simp
  ultimately show ?thesis using False by (simp only: ratio_def if_True simp_thms)
qed

lemma best_score_loop_range:
  "0 \<le> s \<Longrightarrow> s \<le> 1 \<Longrightarrow>
   0 \<le> best_score_loop caps r s \<and> best_score_loop caps r s \<le> 1"
proof (induction caps arbitrary: s)
  case Nil then show ?case by simp
next
  case (Cons tag rest)
  have "0 \<le> max s (ratio tag r)" "max s (ratio tag r) \<le> 1"
    using Cons.prems ratio_range[of tag r] by simp_all
  from Cons.IH[OF this] show ?case by simp
qed

lemma round3_unit: "0 \<le> x \<Longrightarrow> x \<le> 1 \<Longrightarrow> 0 \<le> round3 x \<and> round3 x \<le> 1"
proof -
  assume x: "0 \<le> x" "x \<le> 1"
  define n where "n = round_half_even (x * 1000)"
  have "of_int 0 \<le> x * 1000" using x by simp
  then have n0: "0 \<le> n" unfolding n_def by (rule round_half_even_lower)
  have "x * 1000 \<le> of_int 1000" using x by simp
  then have n1: "n \<le> 1000" unfolding n_def by (rule round_half_even_upper)
  have r: "round3 x = of_int n / 1000" by (simp add: round3_def n_def)
  show ?thesis unfolding r using n0 n1 by simp
qed

lemma match_range: "0 \<le> match caps r \<and> match caps r \<le> 1"
  unfolding match_def by (rule round3_unit) (simp_all add: best_score_loop_range)

lemma best_score_loop_mono: "s \<le> best_score_loop caps r s"
proof (induction caps arbitrary: s)
  case Nil show ?case by simp
next
  case (Cons tag rest)
  have "s \<le> max s (ratio tag r)" by simp
  also have "\<dots> \<le> best_score_loop rest r (max s (ratio tag r))" by (rule Cons.IH)
  finally show ?case by simp
qed

lemma best_score_loop_member:
  "tag \<in> set caps \<Longrightarrow> ratio tag r \<le> best_score_loop caps r s"
proof (induction caps arbitrary: s)
  case Nil then show ?case by simp
next
  case (Cons t rest)
  show ?case
  proof (cases "tag = t")
    case True
    have "ratio tag r \<le> max s (ratio t r)" using True by simp
    also have "\<dots> \<le> best_score_loop rest r (max s (ratio t r))" by (rule best_score_loop_mono)
    finally show ?thesis by simp
  next
    case False
    with Cons.prems have "tag \<in> set rest" by simp
    from Cons.IH[OF this] show ?thesis by simp
  qed
qed

lemma b2j_set: "j \<in> set (b2j x c) \<longleftrightarrow> j < length x \<and> x ! j = c \<and> \<not> popular x c"
  by (auto simp: b2j_def)

lemma b2j_sorted: "sorted (b2j x c)" "distinct (b2j x c)"
  by (simp_all add: b2j_def sorted_wrt_filter)

lemma common_run_pos: "0 < common_run x i j \<longleftrightarrow> x ! i = x ! j \<and> \<not> popular x (x ! i)"
  by (cases i; cases j) auto

lemma common_run_step:
  "x ! i = x ! j \<Longrightarrow> \<not> popular x (x ! i) \<Longrightarrow>
   common_run x i j = (if i = 0 \<or> j = 0 then 0 else common_run x (i - 1) (j - 1)) + 1"
  by (cases i; cases j) simp_all

lemma common_run_diag: "common_run x i j \<le> common_run x (min i j) (min i j)"
proof (induction x i j rule: common_run.induct)
  case (1 x j) show ?case by simp
next
  case (2 x i) show ?case by auto
next
  case (3 x i j)
  show ?case
  proof (cases "x ! Suc i = x ! Suc j \<and> \<not> popular x (x ! Suc i)")
    case False then show ?thesis by auto
  next
    case True
    have m: "min (Suc i) (Suc j) = Suc (min i j)" by simp
    have e: "x ! Suc (min i j) = x ! Suc i" using True by (simp add: min_def)
    show ?thesis unfolding m using True 3 e by simp
  qed
qed

lemma inner_loop_diag:
  assumes i: "i < length x"
    and tab: "\<forall>j < length x. j2len j = (if i = 0 then 0 else common_run x (i - 1) j)"
  shows "sorted js \<Longrightarrow> distinct js \<Longrightarrow> set js = {j \<in> set (b2j x (x ! i)). m \<le> j} \<Longrightarrow>
     \<forall>j. new j = (if j < m \<and> j \<in> set (b2j x (x ! i)) then common_run x i j else 0) \<Longrightarrow>
     bi = bj \<Longrightarrow> \<forall>i' < i. \<forall>j < length x. common_run x i' j \<le> bs \<Longrightarrow>
     \<forall>j < m. j < length x \<longrightarrow> common_run x i j \<le> bs \<Longrightarrow>
     inner_loop js i 0 (length x) j2len (new, bi, bj, bs) = (new', bi', bj', bs') \<Longrightarrow>
       (\<forall>j < length x. new' j = common_run x i j) \<and> bi' = bj'
       \<and> (\<forall>i' < Suc i. \<forall>j < length x. common_run x i' j \<le> bs')"
proof (induction js arbitrary: m new bi bj bs)
  case Nil
  have out: "j \<notin> set (b2j x (x ! i))" if "m \<le> j" for j using Nil(3) that by auto
  have zero: "common_run x i j = 0" if "j < length x" "m \<le> j" for j
  proof -
    from out[OF that(2)] that(1) have "\<not> (x ! i = x ! j \<and> \<not> popular x (x ! i))"
      by (auto simp: b2j_set)
    then show ?thesis using common_run_pos[of x i j] by auto
  qed
  from Nil(8) have eq: "new' = new" "bi' = bi" "bj' = bj" "bs' = bs" by simp_all
  have 1: "\<forall>j < length x. new' j = common_run x i j"
  proof (intro allI impI)
    fix j assume j: "j < length x"
    show "new' j = common_run x i j"
    proof (cases "j < m")
      case True
      show ?thesis
      proof (cases "j \<in> set (b2j x (x ! i))")
        case True with \<open>j < m\<close> Nil(4) eq show ?thesis by simp
      next
        case False
        then have "\<not> (x ! i = x ! j \<and> \<not> popular x (x ! i))" using j by (auto simp: b2j_set)
        then have "common_run x i j = 0" using common_run_pos[of x i j] by auto
        with False Nil(4) eq show ?thesis by simp
      qed
    next
      case False
      then have "m \<le> j" by simp
      from zero[OF j this] out[OF this] Nil(4) eq show ?thesis by simp
    qed
  qed
  have 3: "\<forall>i' < Suc i. \<forall>j < length x. common_run x i' j \<le> bs'"
  proof (intro allI impI)
    fix i' j assume a: "i' < Suc i" "j < length x"
    show "common_run x i' j \<le> bs'"
    proof (cases "i' = i")
      case False with a Nil(6) eq show ?thesis by simp
    next
      case True
      show ?thesis
      proof (cases "j < m")
        case True with \<open>i' = i\<close> a Nil(7) eq show ?thesis by simp
      next
        case False
        then have "m \<le> j" by simp
        from zero[OF a(2) this] \<open>i' = i\<close> show ?thesis by simp
      qed
    qed
  qed
  from 1 3 eq Nil(5) show ?case by simp
next
  case (Cons j rest)
  let ?B = "set (b2j x (x ! i))"
  have jB: "j \<in> ?B" and mj: "m \<le> j" using Cons.prems(3) by auto
  then have jn: "j < length x" and xj: "x ! j = x ! i" and np: "\<not> popular x (x ! i)"
    by (simp_all add: b2j_set)
  have gt: "j < j'" if "j' \<in> set rest" for j'
    using Cons.prems(1,2) that by (auto simp: le_less)
  have rest: "set rest = {j' \<in> ?B. Suc j \<le> j'}"
  proof (intro set_eqI iffI)
    fix j' assume a: "j' \<in> set rest"
    then have "j' \<in> set (j # rest)" by simp
    with Cons.prems(3) have "j' \<in> ?B" by auto
    with gt[OF a] show "j' \<in> {j' \<in> ?B. Suc j \<le> j'}" by simp
  next
    fix j' assume "j' \<in> {j' \<in> ?B. Suc j \<le> j'}"
    then have a: "j' \<in> ?B" "Suc j \<le> j'" by simp_all
    with mj have "j' \<in> {j \<in> ?B. m \<le> j}" by simp
    with Cons.prems(3) have "j' \<in> set (j # rest)" by simp
    with a(2) show "j' \<in> set rest" by auto
  qed
  have gap: "j' \<notin> ?B" if "m \<le> j'" "j' < j" for j'
  proof
    assume "j' \<in> ?B"
    with that(1) Cons.prems(3) have "j' \<in> set (j # rest)" by simp
    with that(2) gt[of j'] show False by auto
  qed
  have zero: "common_run x i j' = 0" if "j' < length x" "j' \<notin> ?B" for j'
  proof -
    from that have "\<not> (x ! i = x ! j' \<and> \<not> popular x (x ! i))" by (auto simp: b2j_set)
    then show ?thesis using common_run_pos[of x i j'] by auto
  qed
  have row: "common_run x i j' \<le> bs" if "j' < j" for j'
  proof (cases "j' < m")
    case True with Cons.prems(7) that jn show ?thesis by simp
  next
    case False
    then have "j' \<notin> ?B" using gap[of j'] that by simp
    with zero[of j'] that jn show ?thesis by simp
  qed
  define k where "k = (if j = 0 then 0 else j2len (j - 1)) + 1"
  have k: "k = common_run x i j"
  proof -
    have "common_run x i j = (if i = 0 \<or> j = 0 then 0 else common_run x (i - 1) (j - 1)) + 1"
      by (rule common_run_step) (use xj np in simp_all)
    moreover have "j2len (j - 1) = (if i = 0 then 0 else common_run x (i - 1) (j - 1))" if "j \<noteq> 0"
      using tab jn that by simp
    ultimately show ?thesis unfolding k_def by auto
  qed
  have diag: "i = j" if "bs < k"
  proof (rule ccontr)
    assume ne: "i \<noteq> j"
    show False
    proof (cases "j < i")
      case True
      have "common_run x i j \<le> common_run x j j"
        using common_run_diag[of x i j] True by (simp add: min_def)
      also have "\<dots> \<le> bs" using Cons.prems(6) True jn by simp
      finally show False using that k by simp
    next
      case False
      with ne have ij: "i < j" by simp
      have "common_run x i j \<le> common_run x i i"
        using common_run_diag[of x i j] ij by (simp add: min_def)
      also have "\<dots> \<le> bs" by (rule row[OF ij])
      finally show False using that k by simp
    qed
  qed
  define new2 where "new2 = new(j := k)"
  have new2: "\<forall>j'. new2 j' = (if j' < Suc j \<and> j' \<in> ?B then common_run x i j' else 0)"
  proof
    fix j'
    show "new2 j' = (if j' < Suc j \<and> j' \<in> ?B then common_run x i j' else 0)"
    proof (cases "j' = j")
      case True then show ?thesis using jB k by (simp add: new2_def)
    next
      case False
      have "(j' < m \<and> j' \<in> ?B) \<longleftrightarrow> (j' < Suc j \<and> j' \<in> ?B)"
        using False mj gap[of j'] by (cases "j' < m") auto
      with Cons.prems(4) False show ?thesis by (simp add: new2_def)
    qed
  qed
  show ?case
  proof (cases "bs < k")
    case True
    have step: "inner_loop (j # rest) i 0 (length x) j2len (new, bi, bj, bs)
                 = inner_loop rest i 0 (length x) j2len (new2, i + 1 - k, j + 1 - k, k)"
      using True jn by (simp add: k_def new2_def Let_def)
    have b1: "i + 1 - k = j + 1 - k" using diag[OF True] by simp
    have b2: "\<forall>i' < i. \<forall>j < length x. common_run x i' j \<le> k"
      using Cons.prems(6) True by (meson le_trans less_imp_le)
    have b3: "\<forall>j' < Suc j. j' < length x \<longrightarrow> common_run x i j' \<le> k"
    proof (intro allI impI)
      fix j' assume "j' < Suc j" "j' < length x"
      show "common_run x i j' \<le> k"
      proof (cases "j' = j")
        case True then show ?thesis using k by simp
      next
        case False
        with \<open>j' < Suc j\<close> have "j' < j" by simp
        from row[OF this] True show ?thesis by simp
      qed
    qed
    from Cons.prems(1,2) have sr: "sorted rest" "distinct rest" by simp_all
    show ?thesis
      by (rule Cons.IH[OF sr rest new2 b1 b2 b3]) (use Cons.prems(8) step in simp)
  next
    case False
    have step: "inner_loop (j # rest) i 0 (length x) j2len (new, bi, bj, bs)
                 = inner_loop rest i 0 (length x) j2len (new2, bi, bj, bs)"
      using False jn by (simp add: k_def new2_def Let_def)
    have b3: "\<forall>j' < Suc j. j' < length x \<longrightarrow> common_run x i j' \<le> bs"
    proof (intro allI impI)
      fix j' assume "j' < Suc j" "j' < length x"
      show "common_run x i j' \<le> bs"
      proof (cases "j' = j")
        case True then show ?thesis using k False by simp
      next
        case False
        with \<open>j' < Suc j\<close> have "j' < j" by simp
        from row[OF this] show ?thesis .
      qed
    qed
    from Cons.prems(1,2) have sr: "sorted rest" "distinct rest" by simp_all
    show ?thesis
      by (rule Cons.IH[OF sr rest new2 Cons.prems(5,6) b3]) (use Cons.prems(8) step in simp)
  qed
qed

lemma outer_loop_diag:
  "i \<le> length x \<Longrightarrow>
   \<forall>j < length x. j2len j = (if i = 0 then 0 else common_run x (i - 1) j) \<Longrightarrow>
   bi = bj \<Longrightarrow> \<forall>i' < i. \<forall>j < length x. common_run x i' j \<le> bs \<Longrightarrow>
   outer_loop x x [i..<length x] 0 (length x) (j2len, bi, bj, bs) = (bi', bj', bs') \<Longrightarrow> bi' = bj'"
proof (induction "length x - i" arbitrary: i j2len bi bj bs)
  case 0
  then have "[i..<length x] = []" by simp
  with 0 show ?case by simp
next
  case (Suc d)
  then have i: "i < length x" by simp
  obtain new' ci cj cs where
    inner: "inner_loop (b2j x (x ! i)) i 0 (length x) j2len (\<lambda>j. 0, bi, bj, bs) = (new', ci, cj, cs)"
    by (cases "inner_loop (b2j x (x ! i)) i 0 (length x) j2len (\<lambda>j. 0, bi, bj, bs)")
  have res: "(\<forall>j < length x. new' j = common_run x i j) \<and> ci = cj
       \<and> (\<forall>i' < Suc i. \<forall>j < length x. common_run x i' j \<le> cs)"
    by (rule inner_loop_diag[where m = 0, OF i Suc.prems(2) b2j_sorted(1) b2j_sorted(2) _ _ Suc.prems(3,4) _ inner])
       simp_all
  have up: "[i..<length x] = i # [Suc i..<length x]" using i by (simp add: upt_rec)
  have d: "d = length x - Suc i" using Suc(2) by simp
  have run: "outer_loop x x [Suc i..<length x] 0 (length x) (new', ci, cj, cs) = (bi', bj', bs')"
    using Suc.prems(5) unfolding up by (simp add: inner)
  show ?case
    by (rule Suc(1)[OF d _ _ _ _ run]) (use i res in simp_all)
qed

lemma extend_back_same:
  "extend_back x x 0 0 (bi, bi, bs) = (0, 0, bs + bi)"
proof (induction bi arbitrary: bs)
  case 0 show ?case by (simp add: extend_back.simps)
next
  case (Suc bi)
  have "extend_back x x 0 0 (Suc bi, Suc bi, bs) = extend_back x x 0 0 (bi, bi, bs + 1)"
    by (subst extend_back.simps) simp
  with Suc[of "bs + 1"] show ?case by simp
qed

lemma extend_forward_same:
  "s \<le> n \<Longrightarrow> extend_forward x x n n (0, 0, s) = (0, 0, n)"
proof (induction "n - s" arbitrary: s)
  case 0 then show ?case by (simp add: extend_forward.simps)
next
  case (Suc d)
  then have "s < n" by simp
  then have "extend_forward x x n n (0, 0, s) = extend_forward x x n n (0, 0, s + 1)"
    by (subst extend_forward.simps) simp
  moreover have "extend_forward x x n n (0, 0, s + 1) = (0, 0, n)"
    by (rule Suc(1)) (use Suc(2) \<open>s < n\<close> in simp_all)
  ultimately show ?case by simp
qed

lemma find_longest_match_same:
  "find_longest_match x x 0 (length x) 0 (length x) = (0, 0, length x)"
proof -
  obtain bi bj bs where
    dp: "outer_loop x x [0..<length x] 0 (length x) (\<lambda>j. 0, 0, 0, 0) = (bi, bj, bs)"
    by (cases "outer_loop x x [0..<length x] 0 (length x) (\<lambda>j. 0, 0, 0, 0)")
  have eq: "bi = bj"
    by (rule outer_loop_diag[OF _ _ _ _ dp]) simp_all
  have "best_ok 0 (length x) 0 (length x) (outer_loop x x [0..<length x] 0 (length x) (\<lambda>j. 0, 0, 0, 0))"
    by (rule outer_loop_ok) (simp_all add: table_ok_def best_ok_def)
  then have le: "bs + bi \<le> length x" unfolding dp by (simp add: best_ok_def split: if_splits)
  show ?thesis
    unfolding find_longest_match_def dp eq[symmetric] extend_back_same
    by (rule extend_forward_same[OF le])
qed

lemma matches_same: "matches x x = length x"
proof (cases "length x = 0")
  case True
  then show ?thesis
    using find_longest_match_same[of x]
    by (simp add: matches_def matching_blocks_loop.simps)
next
  case False
  then show ?thesis
    using find_longest_match_same[of x]
    by (simp add: matches_def matching_blocks_loop.simps)
qed

lemma ratio_same: "ratio x x = 1"
  by (simp add: ratio_def matches_same)

lemma match_stored_tag:
  assumes "lower r \<in> set caps"
  shows "match caps r = 1"
proof -
  have "ratio (lower r) (lower r) \<le> best_score_loop caps (lower r) 0"
    by (rule best_score_loop_member[OF assms])
  then have "1 \<le> best_score_loop caps (lower r) 0" by (simp add: ratio_same)
  moreover have "best_score_loop caps (lower r) 0 \<le> 1"
    using best_score_loop_range[of 0 caps "lower r"] by simp
  ultimately have "best_score_loop caps (lower r) 0 = 1" by simp
  then show ?thesis by (simp add: match_def round3_one)
qed

lemma example_ratio: "ratio ''abcd'' ''bcde'' = 3 / 4"
  by (simp add: ratio_def matches_def matching_blocks_loop.simps find_longest_match_def
      b2j_def popular_def upt_rec extend_back.simps extend_forward.simps)

lemma example_lower: "lower ''Math-QA'' = ''math-qa''"
  by (simp add: lower_def lower_char_def)

text \<open>
  Claim C5. For every capability list and every requirement string, \<^verbatim>\<open>match\<close> returns a
  value in \<open>[0, 1]\<close>; and whenever the lowercased requirement is one of the stored tags,
  \<^verbatim>\<open>match\<close> returns \<open>1.0\<close>. In particular every tag given to the constructor is matched
  with \<open>1.0\<close>.
\<close>

theorem match_unit_interval:
  "(0 \<le> match capabilities r \<and> match capabilities r \<le> 1)
   \<and> (lower r \<in> set capabilities \<longrightarrow> match capabilities r = 1)
   \<and> (r \<in> set tags \<longrightarrow> match (CapabilityManager_init tags) r = 1)"
proof (intro conjI impI)
  show "0 \<le> match capabilities r" "match capabilities r \<le> 1"
    using match_range[of capabilities r] by simp_all
  show "match capabilities r = 1" if "lower r \<in> set capabilities"
    using that by (rule match_stored_tag)
  show "match (CapabilityManager_init tags) r = 1" if "r \<in> set tags"
  proof (rule match_stored_tag)
    show "lower r \<in> set (CapabilityManager_init tags)"
      using that by (simp add: CapabilityManager_init_def)
  qed
qed

theorem match_unit_interval_witness:
  "lower ''Math'' \<in> set [''translation'', ''math'']
   \<and> ''Math'' \<in> set [''Math'', ''math'', ''Translation'']
   \<and> CapabilityManager_init [''Math'', ''math'', ''Translation''] = [''math'', ''translation'']
   \<and> match [''translation'', ''math''] ''Math'' = 1
   \<and> match (CapabilityManager_init [''Math'', ''math'', ''Translation'']) ''Math'' = 1
   \<and> 0 \<le> match [''translation'', ''math''] ''Math''"
  using match_unit_interval[of "[''translation'', ''math'']" "''Math''" "[''Math'', ''math'', ''Translation'']"]
  by (simp add: lower_def lower_char_def CapabilityManager_init_def)

text \<open>
  Claim C9. For a manager whose capability list is empty, \<^verbatim>\<open>match\<close> returns \<open>0.0\<close> for
  every requirement string, and \<^verbatim>\<open>match_and_filter\<close> returns \<open>False\<close> for every threshold
  strictly greater than 0.
\<close>

theorem match_empty_capabilities:
  "match [] r = 0 \<and> (0 < threshold \<longrightarrow> \<not> match_and_filter [] r threshold)"
proof -
  have "round3 0 = 0" using round3_grid[of 0] by simp
  then have "match [] r = 0" by (simp add: match_def)
  then show ?thesis by (simp add: match_and_filter_def)
qed

theorem match_empty_capabilities_witness:
  "CapabilityManager_init [] = [] \<and> (0::real) < 1 / 2
   \<and> match (CapabilityManager_init []) ''math'' = 0
   \<and> \<not> match_and_filter (CapabilityManager_init []) ''math'' (1 / 2)"
  using match_empty_capabilities[of "''math''" "1 / 2"]
  by (simp add: CapabilityManager_init_def)

end
